theory Spec2Isabelle
  imports
    Complex_Main
    "HOL-Library.AList"
    "HOL-Library.FSet"
    "HOL-Library.Multiset"
    "HOL-Library.Char_ord"
    "HOL-Library.List_Lexorder"
    "HOL-Library.Product_Lexorder"
begin

unbundle bit_operations_syntax

section \<open>The monthly best friends wall (card 04)\<close>

text \<open>
  The development embeds \<^verbatim>\<open>wrapped/cards/card_04_monthly_best_friends_wall.py\<close>:
  the per-(conversation, month) statistics record, the scorer, the single forward pass
  over the rows of the search index, the per-month winner selection and the composition
  of the twelve month entries and the year summary.

  Conventions.
  \<^item> Python's unbounded \<^verbatim>\<open>int\<close> is \<^typ>\<open>int\<close>. A \<^verbatim>\<open>float\<close> is the \<^typ>\<open>real\<close> number
    that it denotes. The scorer is given twice: in exact arithmetic, where
    \<^verbatim>\<open>math.log1p x\<close> is \<^term>\<open>ln (1 + x)\<close>, for the statements about its formulas; and
    with the rounded operations of the machine as parameters, for the selection and the
    result, which compare and return the numbers that the machine computed.
  \<^item> A \<^verbatim>\<open>str\<close> is a \<^typ>\<open>string\<close>, one \<^typ>\<open>char\<close> per code point, for the code points
    below 256; comparison is lexicographic by code point, as in Python.
  \<^item> A raised exception is a value \<open>Inl e\<close> of a sum type.
  \<^item> Functions of the repository that are not part of the card (session filter, contact
    lookup, avatar URL) and of the Python library that depend on the machine
    (\<^verbatim>\<open>datetime.fromtimestamp\<close>, \<^verbatim>\<open>datetime.timestamp\<close>, the operations on doubles,
    \<^verbatim>\<open>round\<close>) are parameters, collected in the record \<open>collab\<close>.
\<close>

subsection \<open>Python helpers\<close>

text \<open>
  The exceptions of the function; \<open>SqliteError\<close> is \<^verbatim>\<open>sqlite3.Error\<close> and \<open>OSError\<close>
  and \<open>OverflowError\<close> are the other exceptions of \<^verbatim>\<open>datetime.timestamp\<close>.
\<close>

datatype py_error =
  ValueError | ZeroDivisionError | IndexError | SqliteError | OSError | OverflowError

text \<open>
  White space as \<^verbatim>\<open>str.strip()\<close> removes it, that is, the code points at which
  \<^verbatim>\<open>str.isspace\<close> holds: below 256 these are 9-13, 28-32, \<open>0x85\<close> and \<open>0xA0\<close>.
\<close>

definition is_space :: "char \<Rightarrow> bool" where
  "is_space c = (c \<in> set [CHR 0x09, CHR 0x0A, CHR 0x0B, CHR 0x0C, CHR 0x0D,
                          CHR 0x1C, CHR 0x1D, CHR 0x1E, CHR 0x1F, CHR 0x20,
                          CHR 0x85, CHR 0xA0])"

definition strip :: "string \<Rightarrow> string" where
  "strip s = rev (dropWhile is_space (rev (dropWhile is_space s)))"

text \<open>\<^verbatim>\<open>str(x or "")\<close> for a text column that may be NULL.\<close>

definition str_or_empty :: "string option \<Rightarrow> string" where
  "str_or_empty x = (case x of None \<Rightarrow> '''' | Some s \<Rightarrow> s)"

text \<open>\<^verbatim>\<open>int(x or 0)\<close> for an integer column that may be NULL.\<close>

definition int_or_zero :: "int option \<Rightarrow> int" where
  "int_or_zero x = (case x of None \<Rightarrow> 0 | Some n \<Rightarrow> n)"

text \<open>\<^verbatim>\<open>_mask_name\<close>: keep the first and the last character, star the rest.\<close>

definition mask_name :: "string \<Rightarrow> string" where
  "mask_name name =
     (let s = strip name in
      if s = [] then ''''
      else if length s = 1 then ''*''
      else if length s = 2 then [hd s] @ ''*''
      else [hd s] @ replicate (length s - 2) (CHR ''*'') @ [last s])"

subsection \<open>The statistics record \<^verbatim>\<open>_MonthConvAgg\<close>\<close>

record MonthConvAgg =
  username :: string
  month :: int
  incoming :: int
  outgoing :: int
  replies :: int
  sum_gap :: int
  sum_gap_capped :: int
  active_days :: "int fset"
  time_bucket_mask :: int

definition new_agg :: "string \<Rightarrow> int \<Rightarrow> MonthConvAgg" where
  "new_agg u m = \<lparr>username = u, month = m, incoming = 0, outgoing = 0, replies = 0,
                  sum_gap = 0, sum_gap_capped = 0, active_days = {||}, time_bucket_mask = 0\<rparr>"

definition total :: "MonthConvAgg \<Rightarrow> int" where
  "total a = incoming a + outgoing a"

definition interaction :: "MonthConvAgg \<Rightarrow> int" where
  "interaction a = min (incoming a) (outgoing a)"

definition active_days_count :: "MonthConvAgg \<Rightarrow> int" where
  "active_days_count a = int (fcard (active_days a))"

definition time_bucket_count :: "MonthConvAgg \<Rightarrow> int" where
  "time_bucket_count a =
     (let m = time_bucket_mask a AND 0xF
      in (m AND 1) + (drop_bit 1 m AND 1) + (drop_bit 2 m AND 1) + (drop_bit 3 m AND 1))"

text \<open>The two averages in exact arithmetic; the averages on doubles follow the scorer.\<close>

definition avg_reply_seconds :: "MonthConvAgg \<Rightarrow> real" where
  "avg_reply_seconds a =
     (if replies a \<le> 0 then 0 else real_of_int (sum_gap a) / real_of_int (replies a))"

definition avg_reply_seconds_capped :: "MonthConvAgg \<Rightarrow> real" where
  "avg_reply_seconds_capped a =
     (if replies a \<le> 0 then 0 else real_of_int (sum_gap_capped a) / real_of_int (replies a))"

definition observe :: "MonthConvAgg \<Rightarrow> int \<Rightarrow> int \<Rightarrow> MonthConvAgg" where
  "observe a day hour =
     (let a1 = (if 1 \<le> day \<and> day \<le> 31 then a\<lparr>active_days := finsert day (active_days a)\<rparr> else a);
          bucket = max 0 (min 3 (hour div 6))
      in a1\<lparr>time_bucket_mask := time_bucket_mask a1 OR push_bit (nat bucket) 1\<rparr>)"

subsection \<open>The scorer \<^verbatim>\<open>_score_month_agg\<close>\<close>

record weights =
  w_interaction :: real
  w_speed :: real
  w_continuity :: real
  w_coverage :: real

record score =
  sc_interaction :: real
  sc_speed :: real
  sc_continuity :: real
  sc_coverage :: real
  sc_final :: real

text \<open>
  The scorer in exact arithmetic.
  \<^verbatim>\<open>math.log1p\<close> raises \<^verbatim>\<open>ValueError\<close> at arguments \<open>\<le> -1\<close>; the float division
  raises \<^verbatim>\<open>ZeroDivisionError\<close> at a zero divisor. The divisors
  \<^verbatim>\<open>log1p(max_interaction)\<close>, \<^verbatim>\<open>max(1.0, tau_seconds)\<close>, \<^verbatim>\<open>max_active\<close> and \<^verbatim>\<open>4.0\<close>
  are at least \<open>ln 2\<close>, \<open>1\<close>, \<open>1\<close> and \<open>4\<close>, so only the divisor of the speed score can
  be zero. The statements are evaluated in the order of the source.
\<close>

definition score_month_agg ::
  "MonthConvAgg \<Rightarrow> int \<Rightarrow> int \<Rightarrow> real \<Rightarrow> weights \<Rightarrow> py_error + score" where
  "score_month_agg agg month_max_interaction month_max_active_days tau_seconds ws =
     (let max_interaction = max 1 month_max_interaction;
          max_active = max 1 month_max_active_days
      in if real_of_int (interaction agg) \<le> - 1 then Inl ValueError
         else
           let interaction_score =
                 ln (1 + real_of_int (interaction agg)) / ln (1 + real_of_int max_interaction);
               speed_divisor = 1 + avg_reply_seconds_capped agg / max 1 tau_seconds
           in if speed_divisor = 0 then Inl ZeroDivisionError
              else
                let speed_score = 1 / speed_divisor;
                    continuity_score = real_of_int (active_days_count agg) / real_of_int max_active;
                    coverage_score = real_of_int (time_bucket_count agg) / 4;
                    final_score = w_interaction ws * interaction_score
                                  + w_speed ws * speed_score
                                  + w_continuity ws * continuity_score
                                  + w_coverage ws * coverage_score
                in Inr \<lparr>sc_interaction = interaction_score, sc_speed = speed_score,
                        sc_continuity = continuity_score, sc_coverage = coverage_score,
                        sc_final = final_score\<rparr>)"

text \<open>The constants of \<^verbatim>\<open>compute_monthly_best_friends_wall_stats\<close>.\<close>

definition gap_cap_seconds :: int where
  "gap_cap_seconds = 6 * 60 * 60"

definition tau_seconds :: real where
  "tau_seconds = 30 * 60"

definition default_weights :: weights where
  "default_weights = \<lparr>w_interaction = 0.40, w_speed = 0.30, w_continuity = 0.20, w_coverage = 0.10\<rparr>"

definition minTotalMessages :: int where "minTotalMessages = 8"
definition minInteraction :: int where "minInteraction = 3"
definition minReplyCount :: int where "minReplyCount = 1"
definition minActiveDays :: int where "minActiveDays = 2"

text \<open>
  The counters of a statistics record are counts: the pass below only ever adds one to
  \<open>incoming\<close>, \<open>outgoing\<close> and \<open>replies\<close> and a non-negative gap to the two sums.
\<close>

definition agg_ok :: "MonthConvAgg \<Rightarrow> bool" where
  "agg_ok a = (0 \<le> incoming a \<and> 0 \<le> outgoing a \<and> 0 \<le> replies a
               \<and> 0 \<le> sum_gap a \<and> 0 \<le> sum_gap_capped a)"

definition score_in_unit :: "score \<Rightarrow> bool" where
  "score_in_unit sc =
     (\<forall>x \<in> {sc_interaction sc, sc_speed sc, sc_continuity sc, sc_coverage sc, sc_final sc}.
        0 \<le> x \<and> x \<le> 1)"

subsection \<open>Binary floating point\<close>

text \<open>
  The selection sorts by numbers that the machine computed, and two scores that are
  equal as real numbers can differ after rounding. There a \<^verbatim>\<open>float\<close> is the real number
  that the double denotes and the operations on doubles are parameters: \<open>fl_lit x\<close> is
  the double that the decimal literal \<open>x\<close> denotes, \<open>fl_add\<close>, \<open>fl_mul\<close> and \<open>fl_div\<close>
  are the rounded sum, product and quotient, and \<open>fl_log1p\<close> is \<^verbatim>\<open>math.log1p\<close>. The
  literals \<^verbatim>\<open>0.0\<close>, \<^verbatim>\<open>1.0\<close>, \<^verbatim>\<open>4.0\<close> and \<^verbatim>\<open>100.0\<close> denote themselves; negation,
  \<^verbatim>\<open>max\<close> and the comparisons are exact. \<^verbatim>\<open>float(n)\<close> of an \<^verbatim>\<open>int\<close> is exact up to
  \<open>2^53\<close> in absolute value and is taken exact: the counters count rows of the index and
  sum their gaps.
\<close>

record float_ops =
  fl_lit :: "real \<Rightarrow> real"
  fl_add :: "real \<Rightarrow> real \<Rightarrow> real"
  fl_mul :: "real \<Rightarrow> real \<Rightarrow> real"
  fl_div :: "real \<Rightarrow> real \<Rightarrow> real"
  fl_log1p :: "real \<Rightarrow> real"

definition exact_ops :: float_ops where
  [code del]: "exact_ops = \<lparr>fl_lit = (\<lambda>x. x), fl_add = (\<lambda>x y. x + y), fl_mul = (\<lambda>x y. x * y),
                 fl_div = (\<lambda>x y. x / y), fl_log1p = (\<lambda>x. ln (1 + x))\<rparr>"

definition py_float :: "int \<Rightarrow> real" where
  "py_float n = real_of_int n"

text \<open>
  The methods \<^verbatim>\<open>avg_reply_seconds\<close> and \<^verbatim>\<open>avg_reply_seconds_capped\<close> on doubles; the
  divisor \<^verbatim>\<open>float(self.replies)\<close> is not zero when \<^verbatim>\<open>self.replies\<close> is positive.
\<close>

definition avg_reply_seconds_fl :: "float_ops \<Rightarrow> MonthConvAgg \<Rightarrow> real" where
  "avg_reply_seconds_fl fl a =
     (if replies a \<le> 0 then 0 else fl_div fl (py_float (sum_gap a)) (py_float (replies a)))"

definition avg_reply_seconds_capped_fl :: "float_ops \<Rightarrow> MonthConvAgg \<Rightarrow> real" where
  "avg_reply_seconds_capped_fl fl a =
     (if replies a \<le> 0 then 0
      else fl_div fl (py_float (sum_gap_capped a)) (py_float (replies a)))"

text \<open>
  \<^verbatim>\<open>_score_month_agg\<close> on doubles, statement by statement. A division raises
  \<^verbatim>\<open>ZeroDivisionError\<close> when its divisor is zero as a double; the divisors
  \<^verbatim>\<open>max(1.0, tau_seconds)\<close>, \<^verbatim>\<open>float(max_active)\<close> and \<^verbatim>\<open>4.0\<close> are at least 1, and the
  argument \<^verbatim>\<open>float(max_interaction)\<close> of \<^verbatim>\<open>math.log1p\<close> is at least 1. The sum of the
  four products is evaluated from left to right.
\<close>

definition score_month_agg_fl ::
  "float_ops \<Rightarrow> MonthConvAgg \<Rightarrow> int \<Rightarrow> int \<Rightarrow> real \<Rightarrow> weights \<Rightarrow> py_error + score" where
  "score_month_agg_fl fl agg month_max_interaction month_max_active_days tau ws =
     (let max_interaction = max 1 month_max_interaction;
          max_active = max 1 month_max_active_days
      in if py_float (interaction agg) \<le> - 1 then Inl ValueError
         else
           let log_interaction = fl_log1p fl (py_float (interaction agg));
               log_max = fl_log1p fl (py_float max_interaction)
           in if log_max = 0 then Inl ZeroDivisionError
              else
                let interaction_score = fl_div fl log_interaction log_max;
                    speed_divisor =
                      fl_add fl 1 (fl_div fl (avg_reply_seconds_capped_fl fl agg) (max 1 tau))
                in if speed_divisor = 0 then Inl ZeroDivisionError
                   else
                     let speed_score = fl_div fl 1 speed_divisor;
                         continuity_score =
                           fl_div fl (py_float (active_days_count agg)) (py_float max_active);
                         coverage_score = fl_div fl (py_float (time_bucket_count agg)) 4;
                         final_score =
                           fl_add fl
                             (fl_add fl
                                (fl_add fl (fl_mul fl (w_interaction ws) interaction_score)
                                           (fl_mul fl (w_speed ws) speed_score))
                                (fl_mul fl (w_continuity ws) continuity_score))
                             (fl_mul fl (w_coverage ws) coverage_score)
                     in Inr \<lparr>sc_interaction = interaction_score, sc_speed = speed_score,
                             sc_continuity = continuity_score, sc_coverage = coverage_score,
                             sc_final = final_score\<rparr>)"

text \<open>The record of scores that this scorer returns when it does not raise.\<close>

definition score_values_fl ::
  "float_ops \<Rightarrow> MonthConvAgg \<Rightarrow> int \<Rightarrow> int \<Rightarrow> real \<Rightarrow> weights \<Rightarrow> score" where
  "score_values_fl fl agg mi ma tau ws =
     (let interaction_score =
            fl_div fl (fl_log1p fl (py_float (interaction agg))) (fl_log1p fl (py_float (max 1 mi)));
          speed_score =
            fl_div fl 1 (fl_add fl 1 (fl_div fl (avg_reply_seconds_capped_fl fl agg) (max 1 tau)));
          continuity_score = fl_div fl (py_float (active_days_count agg)) (py_float (max 1 ma));
          coverage_score = fl_div fl (py_float (time_bucket_count agg)) 4
      in \<lparr>sc_interaction = interaction_score, sc_speed = speed_score,
          sc_continuity = continuity_score, sc_coverage = coverage_score,
          sc_final =
            fl_add fl
              (fl_add fl
                 (fl_add fl (fl_mul fl (w_interaction ws) interaction_score)
                            (fl_mul fl (w_speed ws) speed_score))
                 (fl_mul fl (w_continuity ws) continuity_score))
              (fl_mul fl (w_coverage ws) coverage_score)\<rparr>)"

text \<open>The dict \<^verbatim>\<open>weights\<close> of the function: the doubles of its four literals.\<close>

definition weights_fl :: "float_ops \<Rightarrow> weights" where
  "weights_fl fl = \<lparr>w_interaction = fl_lit fl 0.40, w_speed = fl_lit fl 0.30,
                     w_continuity = fl_lit fl 0.20, w_coverage = fl_lit fl 0.10\<rparr>"

text \<open>
  What the statements on the existence of a result ask of the operations on doubles, on
  the arguments that the scorer gives them: \<^verbatim>\<open>log1p\<close> is not zero from 1 on, a quotient
  of a number that is not negative by a number from 1 on is not negative, and one plus a
  number that is not negative is not zero.
\<close>

definition fl_sane :: "float_ops \<Rightarrow> bool" where
  "fl_sane fl =
     ((\<forall>x. 1 \<le> x \<longrightarrow> fl_log1p fl x \<noteq> 0)
      \<and> (\<forall>x y. 0 \<le> x \<and> 1 \<le> y \<longrightarrow> 0 \<le> fl_div fl x y)
      \<and> (\<forall>x. 0 \<le> x \<longrightarrow> fl_add fl 1 x \<noteq> 0))"

subsection \<open>Collaborators\<close>

record local_datetime =
  dt_month :: int
  dt_day :: int
  dt_hour :: int

text \<open>
  \<open>keep_session u\<close> is \<^verbatim>\<open>_should_keep_session(u, include_official=False)\<close>,
  \<open>fromtimestamp\<close> is \<^verbatim>\<open>datetime.fromtimestamp\<close> (local time zone of the machine),
  \<open>display_name u\<close> is \<^verbatim>\<open>_pick_display_name(contact_rows.get(u), u)\<close>,
  \<open>avatar_url n u\<close> is \<^verbatim>\<open>_build_avatar_url(n, u)\<close>, \<open>round1\<close> is \<^verbatim>\<open>round(x, 1)\<close>,
  \<open>fl_ops\<close> are the operations on doubles and \<open>year_timestamp y\<close> is
  \<^verbatim>\<open>int(datetime(y, 1, 1).timestamp())\<close> for a year \<open>y\<close> that \<^verbatim>\<open>datetime\<close> accepts: the
  seconds of the epoch at the start of the year in the time zone of the machine, or the
  exception of the conversion.
\<close>

record collab =
  keep_session :: "string \<Rightarrow> bool"
  fromtimestamp :: "int \<Rightarrow> local_datetime"
  display_name :: "string \<Rightarrow> string"
  avatar_url :: "string \<Rightarrow> string \<Rightarrow> string"
  round1 :: "real \<Rightarrow> real"
  fl_ops :: float_ops
  year_timestamp :: "int \<Rightarrow> py_error + int"

text \<open>
  \<^verbatim>\<open>_year_range_epoch_seconds\<close>: \<^verbatim>\<open>datetime(y, 1, 1)\<close> raises \<^verbatim>\<open>ValueError\<close> unless
  \<open>1 \<le> y \<le> 9999\<close>.
\<close>

definition year_range_epoch_seconds :: "collab \<Rightarrow> int \<Rightarrow> py_error + int \<times> int" where
  "year_range_epoch_seconds c yr =
     (if yr < 1 \<or> 9999 < yr then Inl ValueError
      else case year_timestamp c yr of
             Inl e \<Rightarrow> Inl e
           | Inr start_ts \<Rightarrow>
               if yr + 1 < 1 \<or> 9999 < yr + 1 then Inl ValueError
               else case year_timestamp c (yr + 1) of
                      Inl e \<Rightarrow> Inl e
                    | Inr end_ts \<Rightarrow> Inr (start_ts, end_ts))"

subsection \<open>The forward pass over the rows of the index\<close>

text \<open>
  A row of the query: \<^verbatim>\<open>username\<close>, \<^verbatim>\<open>sender_username\<close> and the timestamp
  expression \<^verbatim>\<open>ts\<close>; each may be NULL. The columns \<^verbatim>\<open>sort_seq_i\<close> and
  \<^verbatim>\<open>local_id_i\<close> only order the rows and are not read by the loop. On such rows the
  conversions of the \<^verbatim>\<open>try\<close> block do not raise.
\<close>

record row =
  row_username :: "string option"
  row_sender :: "string option"
  row_ts :: "int option"

text \<open>
  The variables of the loop: \<^verbatim>\<open>cur_username\<close>, \<^verbatim>\<open>conv_month_aggs\<close> (a dict in
  insertion order), \<^verbatim>\<open>prev_other_ts\<close> and \<^verbatim>\<open>per_month_aggs\<close>. The latter is created
  with the keys 1..12, each with an empty list, and is read and written at these keys
  only; it is a function that is \<open>[]\<close> elsewhere.
\<close>

record pass_state =
  cur_username :: string
  conv_month_aggs :: "(int \<times> MonthConvAgg) list"
  prev_other_ts :: "int option"
  per_month_aggs :: "int \<Rightarrow> MonthConvAgg list"

definition init_state :: pass_state where
  "init_state = \<lparr>cur_username = [], conv_month_aggs = [], prev_other_ts = None,
                  per_month_aggs = (\<lambda>_. [])\<rparr>"

definition flush_item ::
  "(int \<Rightarrow> MonthConvAgg list) \<Rightarrow> int \<times> MonthConvAgg \<Rightarrow> (int \<Rightarrow> MonthConvAgg list)" where
  "flush_item pm kv =
     (case kv of (m, agg) \<Rightarrow>
        if 1 \<le> m \<and> m \<le> 12 \<and> total agg > 0 then pm(m := pm m @ [agg]) else pm)"

definition flush_conv :: "pass_state \<Rightarrow> pass_state" where
  "flush_conv s =
     (if cur_username s = [] then s
      else s\<lparr>conv_month_aggs := [], prev_other_ts := None,
              per_month_aggs := foldl flush_item (per_month_aggs s) (conv_month_aggs s)\<rparr>)"

text \<open>The update of the month's record by one kept event, and the new pending timestamp.\<close>

definition credit ::
  "bool \<Rightarrow> int \<Rightarrow> int option \<Rightarrow> MonthConvAgg \<Rightarrow> MonthConvAgg \<times> int option" where
  "credit is_me ts prev agg =
     (if is_me then
        (let agg1 = agg\<lparr>outgoing := outgoing agg + 1\<rparr>
         in case prev of
              None \<Rightarrow> (agg1, None)
            | Some p \<Rightarrow>
                if ts \<ge> p then
                  (let gap = ts - p
                   in (agg1\<lparr>replies := replies agg1 + 1,
                            sum_gap := sum_gap agg1 + gap,
                            sum_gap_capped := sum_gap_capped agg1 + min gap gap_cap_seconds\<rparr>,
                       None))
                else (agg1, Some p))
      else (agg\<lparr>incoming := incoming agg + 1\<rparr>, Some ts))"

text \<open>The statements run at a row whose conversation is not the current one.\<close>

definition change_conv :: "pass_state \<Rightarrow> string \<Rightarrow> pass_state" where
  "change_conv s u =
     (if u \<noteq> cur_username s then (flush_conv s)\<lparr>cur_username := u\<rparr> else s)"

definition process_row :: "collab \<Rightarrow> string \<Rightarrow> pass_state \<Rightarrow> row \<Rightarrow> pass_state" where
  "process_row c my_username s r =
     (let username = strip (str_or_empty (row_username r));
          sender = strip (str_or_empty (row_sender r));
          ts = int_or_zero (row_ts r)
      in if ts \<le> 0 \<or> username = [] then s
         else
           let s1 = change_conv s username
           in if \<not> keep_session c username then s1
              else
                let dt = fromtimestamp c ts;
                    m = dt_month dt
                in if m < 1 \<or> m > 12 then s1
                   else
                     let agg0 = (case map_of (conv_month_aggs s1) m of
                                   None \<Rightarrow> new_agg username m
                                 | Some a \<Rightarrow> a);
                         agg1 = observe agg0 (dt_day dt) (dt_hour dt);
                         (agg2, prev) = credit (sender = my_username) ts (prev_other_ts s1) agg1
                     in s1\<lparr>conv_month_aggs := AList.update m agg2 (conv_month_aggs s1),
                            prev_other_ts := prev\<rparr>)"

text \<open>The state after the \<^verbatim>\<open>for\<close> loop, and after the last call of \<^verbatim>\<open>flush_conv\<close>.\<close>

definition run_loop :: "collab \<Rightarrow> string \<Rightarrow> row list \<Rightarrow> pass_state" where
  "run_loop c my_username rows = foldl (process_row c my_username) init_state rows"

definition run_pass :: "collab \<Rightarrow> string \<Rightarrow> row list \<Rightarrow> pass_state" where
  "run_pass c my_username rows = flush_conv (run_loop c my_username rows)"

text \<open>
  Notions for the statements below: the conversation of a row, whether the first guard of
  the loop lets the row through, the records of a conversation that a flush adds to the
  pool of month \<open>m\<close>, and the record of month \<open>m\<close> that the next event of the current
  conversation starts from.
\<close>

definition row_user :: "row \<Rightarrow> string" where
  "row_user r = strip (str_or_empty (row_username r))"

definition row_valid :: "row \<Rightarrow> bool" where
  "row_valid r = (\<not> (int_or_zero (row_ts r) \<le> 0 \<or> row_user r = []))"

definition flushed_of :: "(int \<times> MonthConvAgg) list \<Rightarrow> int \<Rightarrow> MonthConvAgg list" where
  "flushed_of conv m =
     map snd (filter (\<lambda>kv. fst kv = m \<and> 1 \<le> fst kv \<and> fst kv \<le> 12 \<and> total (snd kv) > 0) conv)"

definition agg_at :: "pass_state \<Rightarrow> int \<Rightarrow> MonthConvAgg" where
  "agg_at s m = (case map_of (conv_month_aggs s) m of
                   None \<Rightarrow> new_agg (cur_username s) m
                 | Some a \<Rightarrow> a)"

text \<open>A row with no NULL column.\<close>

definition mk_row :: "string \<Rightarrow> string \<Rightarrow> int \<Rightarrow> row" where
  "mk_row u sender ts = \<lparr>row_username = Some u, row_sender = Some sender, row_ts = Some ts\<rparr>"

text \<open>A row that passes all the guards of the loop body.\<close>

definition kept_row :: "collab \<Rightarrow> row \<Rightarrow> bool" where
  "kept_row c r = (row_valid r \<and> keep_session c (row_user r)
     \<and> 1 \<le> dt_month (fromtimestamp c (int_or_zero (row_ts r)))
     \<and> dt_month (fromtimestamp c (int_or_zero (row_ts r))) \<le> 12)"

text \<open>
  What the loop keeps true of its variables: before the first conversation nothing is in
  progress and nothing is pooled; a record in progress sits under its own month, belongs
  to the current conversation and has counted an event; a pooled record sits under its
  own month; all counters are counts; conversation names are stripped and not empty.
\<close>

definition conv_inv :: "pass_state \<Rightarrow> bool" where
  "conv_inv s =
     ((cur_username s = [] \<longrightarrow>
         conv_month_aggs s = [] \<and> prev_other_ts s = None \<and> (\<forall>m. per_month_aggs s m = []))
      \<and> strip (cur_username s) = cur_username s
      \<and> distinct (map fst (conv_month_aggs s))
      \<and> (\<forall>kv \<in> set (conv_month_aggs s).
            username (snd kv) = cur_username s \<and> month (snd kv) = fst kv
            \<and> 1 \<le> fst kv \<and> fst kv \<le> 12 \<and> agg_ok (snd kv) \<and> 0 < total (snd kv))
      \<and> (\<forall>m. \<forall>a \<in> set (per_month_aggs s m).
            month a = m \<and> 1 \<le> m \<and> m \<le> 12 \<and> agg_ok a \<and> 0 < total a
            \<and> username a \<noteq> [] \<and> strip (username a) = username a))"

text \<open>
  On rows in ascending order of conversation, the pooled records of a month belong to
  different conversations, all of them before the current one.
\<close>

definition pool_below :: "pass_state \<Rightarrow> bool" where
  "pool_below s =
     (\<forall>m. distinct (map username (per_month_aggs s m))
          \<and> (\<forall>a \<in> set (per_month_aggs s m). username a < cur_username s))"

definition rows_ordered :: "row list \<Rightarrow> bool" where
  "rows_ordered rows = sorted (map row_user (filter row_valid rows))"

text \<open>
  The order of the query, \<^verbatim>\<open>ORDER BY username ASC\<close>, is the order of the column as it
  is stored, with NULL first; NULL is read as the empty string, the least string. A
  name is padded when \<^verbatim>\<open>strip\<close> changes it.
\<close>

definition raw_user :: "row \<Rightarrow> string" where
  "raw_user r = str_or_empty (row_username r)"

definition raw_ordered :: "row list \<Rightarrow> bool" where
  "raw_ordered rows = sorted (map raw_user rows)"

definition rows_unpadded :: "row list \<Rightarrow> bool" where
  "rows_unpadded rows = (\<forall>r \<in> set rows. strip (raw_user r) = raw_user r)"

subsection \<open>The winner of a month\<close>

definition is_eligible :: "MonthConvAgg \<Rightarrow> bool" where
  "is_eligible agg =
     (\<not> total agg < minTotalMessages \<and> \<not> interaction agg < minInteraction
      \<and> \<not> replies agg < minReplyCount \<and> \<not> active_days_count agg < minActiveDays)"

type_synonym tie_key = "real \<times> real \<times> real \<times> real \<times> string"

text \<open>
  The tuple \<^verbatim>\<open>tie_key\<close>: \<^verbatim>\<open>(-float(score["final"]), -float(agg.interaction),
  float(agg.avg_reply_seconds_capped()), -float(agg.active_days_count), str(agg.username))\<close>.
  Python compares tuples lexicographically, as the order of \<^typ>\<open>tie_key\<close> does.
\<close>

definition tie_key_of :: "float_ops \<Rightarrow> MonthConvAgg \<Rightarrow> score \<Rightarrow> tie_key" where
  "tie_key_of fl agg sc =
     (- sc_final sc, - py_float (interaction agg), avg_reply_seconds_capped_fl fl agg,
      - py_float (active_days_count agg), username agg)"

text \<open>The loop that fills \<^verbatim>\<open>scored\<close>; an exception of the scorer leaves the loop.\<close>

fun score_all ::
  "float_ops \<Rightarrow> int \<Rightarrow> int \<Rightarrow> MonthConvAgg list
     \<Rightarrow> py_error + (tie_key \<times> MonthConvAgg \<times> score) list" where
  "score_all fl mi ma [] = Inr []"
| "score_all fl mi ma (agg # aggs) =
     (case score_month_agg_fl fl agg mi ma tau_seconds (weights_fl fl) of
        Inl e \<Rightarrow> Inl e
      | Inr sc \<Rightarrow>
          (case score_all fl mi ma aggs of
             Inl e \<Rightarrow> Inl e
           | Inr rest \<Rightarrow> Inr ((tie_key_of fl agg sc, agg, sc) # rest)))"

text \<open>
  One round of the loop over the months: \<open>Inr None\<close> is the \<^verbatim>\<open>continue\<close> at an empty
  eligible list, \<open>Inr (Some (agg, score))\<close> the winner pack. \<^verbatim>\<open>max\<close> runs over a
  non-empty list here; \<^verbatim>\<open>sort\<close> is stable, as \<^const>\<open>sort_key\<close> is.
\<close>

definition select_month ::
  "float_ops \<Rightarrow> MonthConvAgg list \<Rightarrow> py_error + (MonthConvAgg \<times> score) option" where
  "select_month fl aggs =
     (case filter is_eligible aggs of
        [] \<Rightarrow> Inr None
      | e # es \<Rightarrow>
          (let eligible = e # es;
               month_max_interaction = foldl max (interaction e) (map interaction es);
               month_max_active_days = foldl max (active_days_count e) (map active_days_count es)
           in case score_all fl month_max_interaction month_max_active_days eligible of
                Inl err \<Rightarrow> Inl err
              | Inr scored \<Rightarrow>
                  (case sort_key fst scored of
                     [] \<Rightarrow> Inl IndexError
                   | (_, winner_agg, winner_score) # _ \<Rightarrow> Inr (Some (winner_agg, winner_score)))))"

text \<open>The loop over the months, filling \<^verbatim>\<open>month_winner_raw\<close> in month order.\<close>

fun select_months ::
  "float_ops \<Rightarrow> (int \<Rightarrow> MonthConvAgg list) \<Rightarrow> int list
     \<Rightarrow> py_error + (int \<times> MonthConvAgg \<times> score) list" where
  "select_months fl pm [] = Inr []"
| "select_months fl pm (m # ms) =
     (case select_month fl (pm m) of
        Inl e \<Rightarrow> Inl e
      | Inr None \<Rightarrow> select_months fl pm ms
      | Inr (Some pack) \<Rightarrow>
          (case select_months fl pm ms of
             Inl e \<Rightarrow> Inl e
           | Inr rest \<Rightarrow> Inr ((m, pack) # rest)))"

text \<open>
  Notions for the statements about the selection: the eligible records of a pool, the
  scores and the sort key of a record among them (with the month maxima of interaction
  and of active days), and a pool whose records have counts for counters and a stripped,
  non-empty conversation name, as the pass builds them.
\<close>

definition eligible_of :: "MonthConvAgg list \<Rightarrow> MonthConvAgg list" where
  "eligible_of aggs = filter is_eligible aggs"

definition month_scores :: "float_ops \<Rightarrow> MonthConvAgg list \<Rightarrow> MonthConvAgg \<Rightarrow> score" where
  "month_scores fl aggs a =
     score_values_fl fl a (Max (interaction ` set (eligible_of aggs)))
       (Max (active_days_count ` set (eligible_of aggs))) tau_seconds (weights_fl fl)"

definition month_key :: "float_ops \<Rightarrow> MonthConvAgg list \<Rightarrow> MonthConvAgg \<Rightarrow> tie_key" where
  "month_key fl aggs a = tie_key_of fl a (month_scores fl aggs a)"

definition month_scored ::
  "float_ops \<Rightarrow> MonthConvAgg list \<Rightarrow> (tie_key \<times> MonthConvAgg \<times> score) list" where
  "month_scored fl aggs =
     map (\<lambda>a. (month_key fl aggs a, a, month_scores fl aggs a)) (eligible_of aggs)"

text \<open>The first of the eligible records in ascending order of the sort key, if any.\<close>

definition month_winner ::
  "float_ops \<Rightarrow> MonthConvAgg list \<Rightarrow> (MonthConvAgg \<times> score) option" where
  "month_winner fl aggs =
     (if eligible_of aggs = [] then None
      else Some (snd (hd (sort_key fst (month_scored fl aggs)))))"

definition pool_ok :: "(int \<Rightarrow> MonthConvAgg list) \<Rightarrow> bool" where
  "pool_ok pm =
     (\<forall>m. \<forall>a \<in> set (pm m). agg_ok a \<and> username a \<noteq> [] \<and> strip (username a) = username a)"

subsection \<open>The month entries and the year summary\<close>

text \<open>
  The dicts under the keys \<^verbatim>\<open>winner\<close>, \<^verbatim>\<open>metrics\<close> and \<^verbatim>\<open>raw\<close> have fixed keys and
  are records. The entry of a month is built from one of two dict displays with
  different keys, so it is a list of key-value pairs in the order of the display.
\<close>

record winner_info =
  wi_username :: string
  wi_displayName :: string
  wi_maskedName :: string
  wi_avatarUrl :: string
  wi_score :: real
  wi_score100 :: real

record metrics_info =
  interactionScore :: real
  speedScore :: real
  continuityScore :: real
  coverageScore :: real

record raw_info =
  incomingMessages :: int
  outgoingMessages :: int
  totalMessages :: int
  raw_interaction :: int
  replyCount :: int
  avgReplySeconds :: real
  avgReplySecondsCapped :: real
  activeDays :: int
  timeBucketsCount :: int

datatype mval =
  PyNone | PyBool bool | PyInt int | PyStr string
  | Winner winner_info | Metrics metrics_info | Raw raw_info

type_synonym month_item = "(string \<times> mval) list"

text \<open>\<^verbatim>\<open>d.get(k)\<close>: \<^verbatim>\<open>None\<close> at a missing key.\<close>

definition dict_get :: "month_item \<Rightarrow> string \<Rightarrow> mval" where
  "dict_get d k = (case map_of d k of None \<Rightarrow> PyNone | Some v \<Rightarrow> v)"

text \<open>\<^verbatim>\<open>isinstance(v, dict)\<close> for the value under the key \<^verbatim>\<open>winner\<close>.\<close>

fun is_dict :: "mval \<Rightarrow> bool" where
  "is_dict (Winner w) = True"
| "is_dict (Metrics m) = True"
| "is_dict (Raw r) = True"
| "is_dict v = False"

text \<open>The entry of a month without a winner pack, and the entry of a month.\<close>

definition no_winner_entry :: "int \<Rightarrow> month_item" where
  "no_winner_entry m =
     [(''month'', PyInt m), (''winner'', PyNone), (''metrics'', PyNone), (''raw'', PyNone),
      (''isFallback'', PyBool False), (''reason'', PyStr ''insufficient_data'')]"

definition month_entry ::
  "collab \<Rightarrow> string \<Rightarrow> (int \<times> MonthConvAgg \<times> score) list \<Rightarrow> int \<Rightarrow> month_item" where
  "month_entry c account_name month_winner_raw m =
     (case map_of month_winner_raw m of
        None \<Rightarrow> no_winner_entry m
      | Some (agg, sc) \<Rightarrow>
          (let display = display_name c (username agg);
               avatar = (if username agg \<noteq> [] then avatar_url c account_name (username agg) else [])
           in [(''month'', PyInt m),
               (''winner'', Winner \<lparr>wi_username = username agg, wi_displayName = display,
                   wi_maskedName = mask_name display, wi_avatarUrl = avatar,
                   wi_score = sc_final sc,
                   wi_score100 = round1 c (fl_mul (fl_ops c) (sc_final sc) 100)\<rparr>),
               (''metrics'', Metrics \<lparr>interactionScore = sc_interaction sc, speedScore = sc_speed sc,
                   continuityScore = sc_continuity sc, coverageScore = sc_coverage sc\<rparr>),
               (''raw'', Raw \<lparr>incomingMessages = incoming agg, outgoingMessages = outgoing agg,
                   totalMessages = total agg, raw_interaction = interaction agg,
                   replyCount = replies agg,
                   avgReplySeconds = avg_reply_seconds_fl (fl_ops c) agg,
                   avgReplySecondsCapped = avg_reply_seconds_capped_fl (fl_ops c) agg,
                   activeDays = active_days_count agg,
                   timeBucketsCount = time_bucket_count agg\<rparr>),
               (''isFallback'', PyBool False)]))"

text \<open>\<^verbatim>\<open>winner_month_counts.get(u, 0)\<close>.\<close>

definition count_get :: "(string \<times> int) list \<Rightarrow> string \<Rightarrow> int" where
  "count_get counts u = (case map_of counts u of None \<Rightarrow> 0 | Some n \<Rightarrow> n)"

text \<open>The loop that fills \<^verbatim>\<open>winner_month_counts\<close>, a dict in insertion order.\<close>

fun tally :: "(string \<times> int) list \<Rightarrow> month_item list \<Rightarrow> (string \<times> int) list" where
  "tally counts [] = counts"
| "tally counts (item # items) =
     (case dict_get item ''winner'' of
        Winner w \<Rightarrow>
          (let u = strip (wi_username w)
           in if u = [] then tally counts items
              else tally (AList.update u (count_get counts u + 1) counts) items)
      | _ \<Rightarrow> tally counts items)"

record champion =
  tc_username :: string
  tc_displayName :: string
  tc_maskedName :: string
  tc_monthsWon :: int

text \<open>
  \<^verbatim>\<open>sorted(...)[0][0]\<close> is read only when the dict is not empty; the sorted list is then
  not empty either.
\<close>

definition top_champion_of :: "collab \<Rightarrow> (string \<times> int) list \<Rightarrow> champion option" where
  "top_champion_of c winner_month_counts =
     (if winner_month_counts = [] then None
      else
        let champion_username = fst (hd (sort_key (\<lambda>kv. (- snd kv, fst kv)) winner_month_counts));
            champion_months = count_get winner_month_counts champion_username;
            display = display_name c champion_username
        in Some \<lparr>tc_username = champion_username, tc_displayName = display,
                 tc_maskedName = mask_name display, tc_monthsWon = champion_months\<rparr>)"

text \<open>\<^verbatim>\<open>int(x.get("month") or 0)\<close>; the value under \<^verbatim>\<open>month\<close> is an int.\<close>

definition month_of_item :: "month_item \<Rightarrow> int" where
  "month_of_item x = (case dict_get x ''month'' of PyInt n \<Rightarrow> n | _ \<Rightarrow> 0)"

definition filled_months_of :: "month_item list \<Rightarrow> int list" where
  "filled_months_of months = map month_of_item (filter (\<lambda>x. is_dict (dict_get x ''winner'')) months)"

record year_summary =
  monthsWithWinner :: int
  topChampion :: "champion option"
  filledMonths :: "int list"

text \<open>
  The returned dict without its \<^verbatim>\<open>settings\<close>, which repeat the constants and report the
  state of the index.
\<close>

record wall_stats =
  ws_year :: int
  ws_months :: "month_item list"
  ws_summary :: year_summary

definition compose :: "collab \<Rightarrow> string \<Rightarrow> int \<Rightarrow> (int \<times> MonthConvAgg \<times> score) list \<Rightarrow> wall_stats" where
  "compose c account_name yr month_winner_raw =
     (let months = map (month_entry c account_name month_winner_raw) [1..12];
          winner_month_counts = tally [] months;
          filled_months = filled_months_of months
      in \<lparr>ws_year = yr, ws_months = months,
          ws_summary = \<lparr>monthsWithWinner = int (length filled_months),
                        topChampion = top_champion_of c winner_month_counts,
                        filledMonths = filled_months\<rparr>\<rparr>)"

text \<open>
  The index file as the function meets it: \<open>NoTable\<close> when the file does not exist or
  has no table \<^verbatim>\<open>message_fts\<close>; \<open>ProbeFails e\<close> when \<^verbatim>\<open>sqlite3.connect\<close> or the query
  on \<^verbatim>\<open>sqlite_master\<close> raises \<open>e\<close>; \<open>Table q\<close> when the table is there, \<open>q\<close> being the
  rows of the query in its order, or the exception that the query or the iteration over
  its rows raises. No \<^verbatim>\<open>except\<close> clause handles these exceptions.
\<close>

datatype index_db = NoTable | ProbeFails py_error | Table "py_error + row list"

text \<open>
  The dict \<^verbatim>\<open>per_month_aggs\<close> after the pass. The query runs only when the account name
  is not empty.
\<close>

definition pool_of ::
  "collab \<Rightarrow> string \<Rightarrow> index_db \<Rightarrow> py_error + (int \<Rightarrow> MonthConvAgg list)" where
  "pool_of c account_name index =
     (let my_username = strip account_name
      in case index of
           NoTable \<Rightarrow> Inr (\<lambda>_. [])
         | ProbeFails e \<Rightarrow> Inl e
         | Table q \<Rightarrow>
             if my_username \<noteq> [] then
               (case q of
                  Inl e \<Rightarrow> Inl e
                | Inr rows \<Rightarrow> Inr (per_month_aggs (run_pass c my_username rows)))
             else Inr (\<lambda>_. []))"

text \<open>
  \<^verbatim>\<open>compute_monthly_best_friends_wall_stats\<close>. The bounds of the year are computed
  first and are the parameters of the query. The probe of the index status and the
  request to build the index run in a \<^verbatim>\<open>try\<close> block that handles every exception, and
  only feed \<^verbatim>\<open>settings\<close>.
\<close>

definition compute_monthly_best_friends_wall_stats ::
  "collab \<Rightarrow> string \<Rightarrow> int \<Rightarrow> index_db \<Rightarrow> py_error + wall_stats" where
  "compute_monthly_best_friends_wall_stats c account_name yr index =
     (case year_range_epoch_seconds c yr of
        Inl e \<Rightarrow> Inl e
      | Inr bounds \<Rightarrow>
          (case pool_of c account_name index of
             Inl e \<Rightarrow> Inl e
           | Inr per_month \<Rightarrow>
               (case select_months (fl_ops c) per_month [1..12] of
                  Inl e \<Rightarrow> Inl e
                | Inr month_winner_raw \<Rightarrow> Inr (compose c account_name yr month_winner_raw))))"

text \<open>
  Notions for the statements about the result: whether an entry has a winner, the entry
  of month \<open>m\<close> of a result with twelve entries, and the names of the winners in the
  order of the months.
\<close>

definition has_winner :: "month_item \<Rightarrow> bool" where
  "has_winner item = is_dict (dict_get item ''winner'')"

definition entry_of :: "wall_stats \<Rightarrow> int \<Rightarrow> month_item" where
  "entry_of res m = ws_months res ! nat (m - 1)"

definition winner_names :: "month_item list \<Rightarrow> string list" where
  "winner_names months =
     concat (map (\<lambda>item. case dict_get item ''winner'' of Winner w \<Rightarrow> [wi_username w] | _ \<Rightarrow> []) months)"


subsection \<open>Example inputs\<close>

definition agg_example :: MonthConvAgg where
  "agg_example = \<lparr>username = ''wxid_a'', month = 1, incoming = 5, outgoing = 4, replies = 2,
     sum_gap = 120, sum_gap_capped = 120, active_days = {|1, 2|}, time_bucket_mask = 5\<rparr>"

text \<open>
  Collaborators for the examples: every session is kept, the clock is a calendar of
  twelve months of 31 days that starts at second 0 of the year 1970, and the operations
  on doubles are exact.
\<close>

definition collab_example :: collab where
  "collab_example =
     \<lparr>keep_session = (\<lambda>u. True),
      fromtimestamp = (\<lambda>ts. \<lparr>dt_month = 1 + (ts div 2678400) mod 12,
                              dt_day = 1 + (ts div 86400) mod 31,
                              dt_hour = (ts div 3600) mod 24\<rparr>),
      display_name = (\<lambda>u. u),
      avatar_url = (\<lambda>n u. n @ ''/'' @ u),
      round1 = (\<lambda>x. x),
      fl_ops = exact_ops,
      year_timestamp = (\<lambda>y. Inr ((y - 1970) * 32140800))\<rparr>"

text \<open>
  Two conversations in January, each a message and its reply; a first message of a third
  conversation; a state in which a conversation is current and nothing is in progress.
\<close>

definition rows_two_convs :: "row list" where
  "rows_two_convs = [mk_row ''wxid_a'' ''wxid_a'' 100, mk_row ''wxid_a'' ''wxid_me'' 160,
                     mk_row ''wxid_b'' ''wxid_b'' 200, mk_row ''wxid_b'' ''wxid_me'' 230]"

definition row_third_conv :: row where
  "row_third_conv = mk_row ''wxid_c'' ''wxid_c'' 300"

definition state_example :: pass_state where
  "state_example = \<lparr>cur_username = ''wxid_a'', conv_month_aggs = [], prev_other_ts = None,
                     per_month_aggs = (\<lambda>_. [])\<rparr>"

text \<open>
  A message at the end of January of the example calendar and its reply in February, and
  the three rows of a message with two replies.
\<close>

definition row_late_january :: row where
  "row_late_january = mk_row ''wxid_a'' ''wxid_a'' 2678000"

definition row_early_february :: row where
  "row_early_february = mk_row ''wxid_a'' ''wxid_me'' 2679000"

definition rows_one_reply :: "row list" where
  "rows_one_reply = [mk_row ''wxid_a'' ''wxid_a'' 1000, mk_row ''wxid_a'' ''wxid_me'' (1000 + 60),
                     mk_row ''wxid_a'' ''wxid_me'' (1000 + 120)]"

text \<open>
  A record with the statistics of the first example under a smaller name, and a pool in
  which it comes second.
\<close>

definition agg_twin :: MonthConvAgg where
  "agg_twin = \<lparr>username = ''wxid_0'', month = 1, incoming = 5, outgoing = 4, replies = 2,
     sum_gap = 120, sum_gap_capped = 120, active_days = {|1, 2|}, time_bucket_mask = 5\<rparr>"

definition pool_tie :: "int \<Rightarrow> MonthConvAgg list" where
  "pool_tie m = (if m = 1 then [agg_example, agg_twin] else [])"

text \<open>
  Eight rows of one conversation on two days of January, four messages and four replies;
  a record with seven messages.
\<close>

definition rows_winner :: "row list" where
  "rows_winner =
     [mk_row ''wxid_a'' ''wxid_a'' 1000, mk_row ''wxid_a'' ''wxid_me'' 1060,
      mk_row ''wxid_a'' ''wxid_a'' 2000, mk_row ''wxid_a'' ''wxid_me'' 2060,
      mk_row ''wxid_a'' ''wxid_a'' 90000, mk_row ''wxid_a'' ''wxid_me'' 90060,
      mk_row ''wxid_a'' ''wxid_a'' 91000, mk_row ''wxid_a'' ''wxid_me'' 91060]"

definition agg_seven :: MonthConvAgg where
  "agg_seven = \<lparr>username = ''wxid_s'', month = 1, incoming = 4, outgoing = 3, replies = 3,
     sum_gap = 30, sum_gap_capped = 30, active_days = {|1, 2, 3|}, time_bucket_mask = 15\<rparr>"

text \<open>
  Three rows in the order of the stored column, the first with a padded name of the
  conversation of the third.
\<close>

definition rows_padded :: "row list" where
  "rows_padded = [mk_row '' wxid_b'' ''wxid_b'' 100, mk_row ''wxid_a'' ''wxid_a'' 200,
                  mk_row ''wxid_b'' ''wxid_b'' 300]"

text \<open>
  The eight rows of the first conversation in January followed by eight rows of a second
  conversation in February.
\<close>

definition rows_two_winners :: "row list" where
  "rows_two_winners = rows_winner @
     [mk_row ''wxid_b'' ''wxid_b'' 2679000, mk_row ''wxid_b'' ''wxid_me'' 2679060,
      mk_row ''wxid_b'' ''wxid_b'' 2680000, mk_row ''wxid_b'' ''wxid_me'' 2680060,
      mk_row ''wxid_b'' ''wxid_b'' 2770000, mk_row ''wxid_b'' ''wxid_me'' 2770060,
      mk_row ''wxid_b'' ''wxid_b'' 2771000, mk_row ''wxid_b'' ''wxid_me'' 2771060]"

section \<open>Properties of the scorer\<close>

lemma and_one_bounds: "0 \<le> (x::int) AND 1" "(x::int) AND 1 \<le> 1"
  by (simp_all add: and_one_eq)

lemma time_bucket_count_bounds: "0 \<le> time_bucket_count a" "time_bucket_count a \<le> 4"
proof -
  let ?m = "time_bucket_mask a AND 0xF"
  have "0 \<le> (?m AND 1) + (drop_bit 1 ?m AND 1) + (drop_bit 2 ?m AND 1) + (drop_bit 3 ?m AND 1)"
    using and_one_bounds(1)[of ?m] and_one_bounds(1)[of "drop_bit 1 ?m"]
      and_one_bounds(1)[of "drop_bit 2 ?m"] and_one_bounds(1)[of "drop_bit 3 ?m"] by linarith
  then show "0 \<le> time_bucket_count a" by (simp add: time_bucket_count_def Let_def)
  have "(?m AND 1) + (drop_bit 1 ?m AND 1) + (drop_bit 2 ?m AND 1) + (drop_bit 3 ?m AND 1) \<le> 4"
    using and_one_bounds(2)[of ?m] and_one_bounds(2)[of "drop_bit 1 ?m"]
      and_one_bounds(2)[of "drop_bit 2 ?m"] and_one_bounds(2)[of "drop_bit 3 ?m"] by linarith
  then show "time_bucket_count a \<le> 4" by (simp add: time_bucket_count_def Let_def)
qed

lemma avg_capped_nonneg: "agg_ok a \<Longrightarrow> 0 \<le> avg_reply_seconds_capped a"
  by (simp add: agg_ok_def avg_reply_seconds_capped_def)

lemma interaction_nonneg: "agg_ok a \<Longrightarrow> 0 \<le> interaction a"
  by (simp add: agg_ok_def interaction_def)

lemma speed_divisor_ge_one:
  assumes "agg_ok a"
  shows "1 \<le> 1 + avg_reply_seconds_capped a / max 1 t"
proof -
  have "0 \<le> avg_reply_seconds_capped a / max 1 t"
    using avg_capped_nonneg[OF assms] by (intro divide_nonneg_pos) auto
  then show ?thesis by simp
qed

lemma score_month_agg_Inr:
  assumes "agg_ok a"
  shows "score_month_agg a mi ma t ws =
    Inr \<lparr>sc_interaction = ln (1 + real_of_int (interaction a)) / ln (1 + real_of_int (max 1 mi)),
         sc_speed = 1 / (1 + avg_reply_seconds_capped a / max 1 t),
         sc_continuity = real_of_int (active_days_count a) / real_of_int (max 1 ma),
         sc_coverage = real_of_int (time_bucket_count a) / 4,
         sc_final = w_interaction ws * (ln (1 + real_of_int (interaction a)) / ln (1 + real_of_int (max 1 mi)))
            + w_speed ws * (1 / (1 + avg_reply_seconds_capped a / max 1 t))
            + w_continuity ws * (real_of_int (active_days_count a) / real_of_int (max 1 ma))
            + w_coverage ws * (real_of_int (time_bucket_count a) / 4)\<rparr>"
proof -
  have i: "\<not> real_of_int (interaction a) \<le> - 1"
    using interaction_nonneg[OF assms] by linarith
  have d: "1 + avg_reply_seconds_capped a / max 1 t \<noteq> 0"
    using speed_divisor_ge_one[OF assms, of t] by linarith
  show ?thesis
    unfolding score_month_agg_def Let_def using i d by simp
qed

lemma interaction_score_bounds:
  assumes "0 \<le> i" "i \<le> mi"
  shows "0 \<le> ln (1 + real_of_int i) / ln (1 + real_of_int (max 1 mi))"
    and "ln (1 + real_of_int i) / ln (1 + real_of_int (max 1 mi)) \<le> 1"
proof -
  have pos: "0 < ln (1 + real_of_int (max 1 mi))"
    by (rule ln_gt_zero) simp
  have num: "0 \<le> ln (1 + real_of_int i)"
    using assms(1) by (intro ln_ge_zero) simp
  show "0 \<le> ln (1 + real_of_int i) / ln (1 + real_of_int (max 1 mi))"
    using pos num by simp
  have "ln (1 + real_of_int i) \<le> ln (1 + real_of_int (max 1 mi))"
    using assms by (subst ln_le_cancel_iff) auto
  then show "ln (1 + real_of_int i) / ln (1 + real_of_int (max 1 mi)) \<le> 1"
    using pos by simp
qed

lemma speed_score_bounds:
  assumes "agg_ok a"
  shows "0 < 1 / (1 + avg_reply_seconds_capped a / max 1 t)"
    and "1 / (1 + avg_reply_seconds_capped a / max 1 t) \<le> 1"
  using speed_divisor_ge_one[OF assms, of t] by simp_all

lemma continuity_score_bounds:
  assumes "active_days_count a \<le> ma"
  shows "0 \<le> real_of_int (active_days_count a) / real_of_int (max 1 ma)"
    and "real_of_int (active_days_count a) / real_of_int (max 1 ma) \<le> 1"
proof -
  have c: "0 \<le> active_days_count a" by (simp add: active_days_count_def)
  show "0 \<le> real_of_int (active_days_count a) / real_of_int (max 1 ma)"
    using c by simp
  have "active_days_count a \<le> max 1 ma" using assms by simp
  then have "real_of_int (active_days_count a) \<le> real_of_int (max 1 ma)"
    by (simp only: of_int_le_iff)
  moreover have "0 < real_of_int (max 1 ma)" by simp
  ultimately show "real_of_int (active_days_count a) / real_of_int (max 1 ma) \<le> 1"
    by (simp only: divide_le_eq_1_pos)
qed

lemma coverage_score_bounds:
  "0 \<le> real_of_int (time_bucket_count a) / 4" "real_of_int (time_bucket_count a) / 4 \<le> 1"
  using time_bucket_count_bounds[of a] by simp_all

lemma weighted_sum_bounds:
  fixes a b c d :: real
  assumes "0 \<le> a" "a \<le> 1" "0 \<le> b" "b \<le> 1" "0 \<le> c" "c \<le> 1" "0 \<le> d" "d \<le> 1"
  shows "0 \<le> 0.40 * a + 0.30 * b + 0.20 * c + 0.10 * d"
    and "0.40 * a + 0.30 * b + 0.20 * c + 0.10 * d \<le> 1"
  using assms by simp_all


text \<open>
  Claim C4. For a statistics record whose counters are counts, the scorer returns, with
  \<open>\<tau> = 1800\<close> and the weights of the card, the interaction score
  \<open>ln (1 + interaction) / ln (1 + max 1 maxInteraction)\<close>, the speed score
  \<open>1 / (1 + avg / \<tau>)\<close> where \<open>avg\<close> is \<open>sum_gap_capped / replies\<close> and \<open>0\<close> at no
  reply (the speed score is then \<open>1\<close>, its largest value), the continuity score
  \<open>activeDaysCount / max 1 maxActiveDays\<close>, the coverage score \<open>timeBucketCount / 4\<close>
  and the final score \<open>0.40 i + 0.30 s + 0.20 c + 0.10 v\<close>; when the interaction and the
  active days do not exceed the maxima, the five scores lie between 0 and 1.
\<close>
theorem score_month_agg_formula:
  assumes "agg_ok a"
  shows "\<exists>sc. score_month_agg a mi ma tau_seconds default_weights = Inr sc
    \<and> tau_seconds = 1800
    \<and> sc_interaction sc = ln (1 + real_of_int (interaction a)) / ln (1 + real_of_int (max 1 mi))
    \<and> sc_speed sc = 1 / (1 + avg_reply_seconds_capped a / 1800)
    \<and> avg_reply_seconds_capped a
        = (if replies a = 0 then 0 else real_of_int (sum_gap_capped a) / real_of_int (replies a))
    \<and> (replies a = 0 \<longrightarrow> sc_speed sc = 1)
    \<and> sc_speed sc \<le> 1
    \<and> sc_continuity sc = real_of_int (active_days_count a) / real_of_int (max 1 ma)
    \<and> sc_coverage sc = real_of_int (time_bucket_count a) / 4
    \<and> sc_final sc = 0.40 * sc_interaction sc + 0.30 * sc_speed sc
                     + 0.20 * sc_continuity sc + 0.10 * sc_coverage sc
    \<and> (interaction a \<le> mi \<and> active_days_count a \<le> ma \<longrightarrow> score_in_unit sc)"
proof -
  let ?i = "ln (1 + real_of_int (interaction a)) / ln (1 + real_of_int (max 1 mi))"
  let ?s = "1 / (1 + avg_reply_seconds_capped a / max 1 tau_seconds)"
  let ?c = "real_of_int (active_days_count a) / real_of_int (max 1 ma)"
  let ?v = "real_of_int (time_bucket_count a) / 4"
  let ?sc = "\<lparr>sc_interaction = ?i, sc_speed = ?s, sc_continuity = ?c, sc_coverage = ?v,
              sc_final = w_interaction default_weights * ?i + w_speed default_weights * ?s
                 + w_continuity default_weights * ?c + w_coverage default_weights * ?v\<rparr>"
  have ret: "score_month_agg a mi ma tau_seconds default_weights = Inr ?sc"
    by (rule score_month_agg_Inr[OF assms])
  have tau: "tau_seconds = 1800" by (simp add: tau_seconds_def)
  have mx: "max 1 tau_seconds = 1800" by (simp add: tau_seconds_def)
  have avg: "avg_reply_seconds_capped a
      = (if replies a = 0 then 0 else real_of_int (sum_gap_capped a) / real_of_int (replies a))"
    using assms by (auto simp: avg_reply_seconds_capped_def agg_ok_def)
  have zero: "replies a = 0 \<longrightarrow> ?s = 1"
    by (simp add: avg_reply_seconds_capped_def)
  have fin: "sc_final ?sc = 0.40 * ?i + 0.30 * ?s + 0.20 * ?c + 0.10 * ?v"
    by (simp add: default_weights_def)
  have unit: "score_in_unit ?sc" if h: "interaction a \<le> mi \<and> active_days_count a \<le> ma"
  proof -
    note ib = interaction_score_bounds[OF interaction_nonneg[OF assms] conjunct1[OF h]]
    note sb = speed_score_bounds[OF assms, of tau_seconds]
    note cb = continuity_score_bounds[OF conjunct2[OF h]]
    note vb = coverage_score_bounds[of a]
    have s0: "0 \<le> ?s" using sb(1) by simp
    note fb = weighted_sum_bounds[OF ib(1) ib(2) s0 sb(2) cb(1) cb(2) vb(1) vb(2)]
    show ?thesis
      unfolding score_in_unit_def using ib s0 sb(2) cb vb fb fin by simp
  qed
  show ?thesis
    apply (rule exI[of _ ?sc])
    using ret tau avg zero speed_score_bounds(2)[OF assms, of tau_seconds] fin unit
    by (simp add: mx)
qed

lemma agg_example_facts:
  "agg_ok agg_example" "interaction agg_example = 4" "active_days_count agg_example = 2"
  "replies agg_example = 2" "time_bucket_count agg_example = 2"
  "avg_reply_seconds_capped agg_example = 60"
  by (simp_all add: agg_example_def agg_ok_def interaction_def active_days_count_def
      time_bucket_count_def avg_reply_seconds_capped_def fcard_finsert_if)

theorem score_month_agg_formula_witness:
  "agg_ok agg_example \<and> interaction agg_example \<le> 4 \<and> active_days_count agg_example \<le> 2
   \<and> (\<exists>sc. score_month_agg agg_example 4 2 tau_seconds default_weights = Inr sc
         \<and> sc_speed sc = 30 / 31 \<and> sc_continuity sc = 1 \<and> sc_coverage sc = 1 / 2
         \<and> score_in_unit sc)"
  using score_month_agg_formula[of agg_example 4 2]
  by (simp add: agg_example_facts) blast

text \<open>
  Claim C7. For a statistics record with at least one reply, the speed score does not
  decrease when the decay constant grows from \<open>\<tau>\<^sub>1 > 0\<close> to \<open>\<tau>\<^sub>2 \<ge> \<tau>\<^sub>1\<close>, all other
  data (and so the other three scores) being the same.
\<close>
theorem speed_score_mono_tau:
  assumes "agg_ok a" and "0 < replies a" and "0 < t1" and "t1 \<le> t2"
  shows "\<exists>s1 s2. score_month_agg a mi ma t1 ws = Inr s1 \<and> score_month_agg a mi ma t2 ws = Inr s2
     \<and> sc_speed s1 \<le> sc_speed s2
     \<and> sc_interaction s1 = sc_interaction s2 \<and> sc_continuity s1 = sc_continuity s2
     \<and> sc_coverage s1 = sc_coverage s2"
proof -
  have avg: "0 \<le> avg_reply_seconds_capped a" by (rule avg_capped_nonneg[OF assms(1)])
  have m: "max 1 t1 \<le> max 1 t2" using assms(4) by simp
  have p: "0 < max 1 t1" by simp
  have "avg_reply_seconds_capped a / max 1 t2 \<le> avg_reply_seconds_capped a / max 1 t1"
    by (rule divide_left_mono[OF m avg]) simp
  then have d: "1 + avg_reply_seconds_capped a / max 1 t2 \<le> 1 + avg_reply_seconds_capped a / max 1 t1"
    by simp
  have "0 < 1 + avg_reply_seconds_capped a / max 1 t2"
    using speed_divisor_ge_one[OF assms(1), of t2] by linarith
  then have "1 / (1 + avg_reply_seconds_capped a / max 1 t1) \<le> 1 / (1 + avg_reply_seconds_capped a / max 1 t2)"
    using d by (simp add: frac_le)
  then show ?thesis
    by (simp add: score_month_agg_Inr[OF assms(1)])
qed

theorem speed_score_mono_tau_witness:
  "agg_ok agg_example \<and> 0 < replies agg_example \<and> (0::real) < 600 \<and> (600::real) \<le> 1800
   \<and> (\<exists>s1 s2. score_month_agg agg_example 4 2 600 default_weights = Inr s1
        \<and> score_month_agg agg_example 4 2 1800 default_weights = Inr s2
        \<and> sc_speed s1 = 10 / 11 \<and> sc_speed s2 = 30 / 31 \<and> sc_speed s1 \<le> sc_speed s2)"
  using speed_score_mono_tau[of agg_example 600 1800 4 2 default_weights]
  by (simp add: agg_example_facts score_month_agg_Inr)

section \<open>Properties of the forward pass\<close>

lemma observe_fields [simp]:
  "username (observe a d h) = username a"
  "month (observe a d h) = month a"
  "incoming (observe a d h) = incoming a"
  "outgoing (observe a d h) = outgoing a"
  "replies (observe a d h) = replies a"
  "sum_gap (observe a d h) = sum_gap a"
  "sum_gap_capped (observe a d h) = sum_gap_capped a"
  by (simp_all add: observe_def Let_def)

lemma total_observe [simp]: "total (observe a d h) = total a"
  by (simp add: total_def)

lemma credit_username [simp]:
  "username (fst (credit b ts p a)) = username a"
  "month (fst (credit b ts p a)) = month a"
  by (simp_all add: credit_def Let_def split: option.splits)

lemma credit_incoming:
  "credit False ts p a = (a\<lparr>incoming := incoming a + 1\<rparr>, Some ts)"
  by (simp add: credit_def)

lemma credit_outgoing_reply:
  "p \<le> ts \<Longrightarrow> credit True ts (Some p) a =
     (a\<lparr>outgoing := outgoing a + 1, replies := replies a + 1, sum_gap := sum_gap a + (ts - p),
        sum_gap_capped := sum_gap_capped a + min (ts - p) gap_cap_seconds\<rparr>, None)"
  by (simp add: credit_def Let_def)

lemma credit_outgoing_no_reply:
  "(case p of None \<Rightarrow> True | Some q \<Rightarrow> \<not> q \<le> ts) \<Longrightarrow>
     credit True ts p a = (a\<lparr>outgoing := outgoing a + 1\<rparr>, p)"
  by (simp add: credit_def Let_def split: option.splits)

lemma credit_total: "total (fst (credit b ts p a)) = total a + 1"
  by (simp add: credit_def Let_def total_def split: option.splits)

lemma credit_agg_ok: "agg_ok a \<Longrightarrow> agg_ok (fst (credit b ts p a))"
  by (auto simp: credit_def Let_def agg_ok_def gap_cap_seconds_def split: option.splits)

lemma observe_agg_ok: "agg_ok a \<Longrightarrow> agg_ok (observe a d h)"
  by (simp add: agg_ok_def)

lemma foldl_flush_item:
  "foldl flush_item pm conv m = pm m @ flushed_of conv m"
proof (induction conv arbitrary: pm)
  case Nil
  show ?case by (simp add: flushed_of_def)
next
  case (Cons kv conv)
  have "foldl flush_item pm (kv # conv) m = flush_item pm kv m @ flushed_of conv m"
    using Cons.IH[of "flush_item pm kv"] by simp
  also have "\<dots> = pm m @ flushed_of (kv # conv) m"
    by (cases kv) (simp add: flush_item_def flushed_of_def)
  finally show ?case .
qed

lemma flush_conv_pool:
  "per_month_aggs (flush_conv s) m =
     (if cur_username s = [] then per_month_aggs s m
      else per_month_aggs s m @ flushed_of (conv_month_aggs s) m)"
  by (simp add: flush_conv_def foldl_flush_item)

lemma process_row_skip:
  "\<not> row_valid r \<Longrightarrow> process_row c me s r = s"
  by (auto simp: process_row_def row_valid_def row_user_def Let_def)

lemma process_row_not_kept:
  "row_valid r \<Longrightarrow> \<not> kept_row c r \<Longrightarrow> process_row c me s r = change_conv s (row_user r)"
  by (auto simp: process_row_def row_valid_def row_user_def kept_row_def Let_def)

lemma process_row_kept:
  assumes "kept_row c r"
  shows "process_row c me s r =
    (let s1 = change_conv s (row_user r);
         ts = int_or_zero (row_ts r);
         dt = fromtimestamp c ts;
         m = dt_month dt;
         res = credit (strip (str_or_empty (row_sender r)) = me) ts (prev_other_ts s1)
                 (observe (case map_of (conv_month_aggs s1) m of
                             None \<Rightarrow> new_agg (row_user r) m | Some a \<Rightarrow> a) (dt_day dt) (dt_hour dt))
     in s1\<lparr>conv_month_aggs := AList.update m (fst res) (conv_month_aggs s1),
            prev_other_ts := snd res\<rparr>)"
  using assms
  unfolding process_row_def row_valid_def row_user_def kept_row_def Let_def
  by (simp add: case_prod_beta)


lemma strip_idem: "strip (strip s) = strip s"
proof -
  define t where "t = dropWhile is_space s"
  define r where "r = rev (dropWhile is_space (rev t))"
  have r: "strip s = r" by (simp add: strip_def t_def r_def)
  have rear: "dropWhile is_space (rev r) = rev r"
    by (simp add: r_def)
  have front: "dropWhile is_space r = r"
  proof (cases "r = []")
    case True
    then show ?thesis by simp
  next
    case False
    have "rev t = takeWhile is_space (rev t) @ rev r"
      by (simp add: r_def)
    then have "t = r @ rev (takeWhile is_space (rev t))"
      by (metis rev_append rev_rev_ident)
    then have "hd t = hd r" using False by (metis hd_append2)
    moreover have "t \<noteq> []" using False by (auto simp: r_def)
    then have "\<not> is_space (hd t)" unfolding t_def by (rule hd_dropWhile)
    ultimately show ?thesis by (simp add: dropWhile_eq_self_iff)
  qed
  show ?thesis unfolding r by (simp add: strip_def front rear)
qed

lemma row_user_strip: "strip (row_user r) = row_user r"
  by (simp add: row_user_def strip_idem)

lemma set_update_subset: "set (AList.update k v al) \<subseteq> insert (k, v) (set al)"
  by (induction al) auto

lemma flushed_of_Nil [simp]: "flushed_of [] m = []"
  by (simp add: flushed_of_def)

lemma flushed_of_set:
  "a \<in> set (flushed_of conv m) \<Longrightarrow> (m, a) \<in> set conv \<and> 1 \<le> m \<and> m \<le> 12 \<and> 0 < total a"
  by (auto simp: flushed_of_def)

lemma flushed_of_length:
  "distinct (map fst conv) \<Longrightarrow> length (flushed_of conv m) \<le> 1"
proof (induction conv)
  case Nil
  show ?case by simp
next
  case (Cons kv conv)
  show ?case
  proof (cases "fst kv = m")
    case True
    then have "m \<notin> fst ` set conv" using Cons.prems by auto
    then have "flushed_of conv m = []"
      by (auto simp: flushed_of_def filter_empty_conv)
    then show ?thesis by (simp add: flushed_of_def)
  next
    case False
    then have "flushed_of (kv # conv) m = flushed_of conv m" by (simp add: flushed_of_def)
    then show ?thesis using Cons by simp
  qed
qed

lemma change_conv_eq:
  assumes "conv_inv s" and "u \<noteq> cur_username s"
  shows "change_conv s u =
    \<lparr>cur_username = u, conv_month_aggs = [], prev_other_ts = None,
     per_month_aggs = (\<lambda>m. per_month_aggs s m @ flushed_of (conv_month_aggs s) m)\<rparr>"
proof (cases "cur_username s = []")
  case True
  then have "conv_month_aggs s = []" "prev_other_ts s = None"
    using assms(1) by (simp_all add: conv_inv_def)
  then show ?thesis using True assms(2)
    by (simp add: change_conv_def flush_conv_def)
next
  case False
  have "foldl flush_item (per_month_aggs s) (conv_month_aggs s)
      = (\<lambda>m. per_month_aggs s m @ flushed_of (conv_month_aggs s) m)"
    by (rule ext) (rule foldl_flush_item)
  then show ?thesis using False assms(2)
    by (simp add: change_conv_def flush_conv_def)
qed

lemma conv_inv_init: "conv_inv init_state"
  by (simp add: conv_inv_def init_state_def strip_def)

lemma conv_inv_pool_append:
  assumes "conv_inv s" and "cur_username s \<noteq> []"
    and "a \<in> set (per_month_aggs s m @ flushed_of (conv_month_aggs s) m)"
  shows "month a = m \<and> 1 \<le> m \<and> m \<le> 12 \<and> agg_ok a \<and> 0 < total a
         \<and> username a \<noteq> [] \<and> strip (username a) = username a"
proof (cases "a \<in> set (per_month_aggs s m)")
  case True
  then show ?thesis using assms(1) by (simp add: conv_inv_def)
next
  case False
  then have "a \<in> set (flushed_of (conv_month_aggs s) m)" using assms(3) by simp
  then have in_conv: "(m, a) \<in> set (conv_month_aggs s)" by (simp add: flushed_of_set)
  have "\<forall>kv \<in> set (conv_month_aggs s).
            username (snd kv) = cur_username s \<and> month (snd kv) = fst kv
            \<and> 1 \<le> fst kv \<and> fst kv \<le> 12 \<and> agg_ok (snd kv) \<and> 0 < total (snd kv)"
    using assms(1) by (simp add: conv_inv_def)
  from bspec[OF this in_conv] have
    "username a = cur_username s \<and> month a = m \<and> 1 \<le> m \<and> m \<le> 12 \<and> agg_ok a \<and> 0 < total a"
    by simp
  moreover have "strip (cur_username s) = cur_username s"
    using assms(1) by (simp add: conv_inv_def)
  ultimately show ?thesis using assms(2) by simp
qed

lemma conv_inv_flush: 
  assumes "conv_inv s"
  shows "conv_inv (flush_conv s)"
proof (cases "cur_username s = []")
  case True
  then show ?thesis using assms by (simp add: flush_conv_def)
next
  case False
  have st: "strip (cur_username s) = cur_username s" using assms by (simp add: conv_inv_def)
  show ?thesis
    unfolding conv_inv_def
    using False st conv_inv_pool_append[OF assms False]
    by (simp add: flush_conv_def foldl_flush_item)
qed

lemma conv_inv_change:
  assumes "conv_inv s" and "u \<noteq> []" and "strip u = u"
  shows "conv_inv (change_conv s u)"
proof (cases "u = cur_username s")
  case True
  then show ?thesis using assms(1) by (simp add: change_conv_def)
next
  case False
  have eq: "change_conv s u = (flush_conv s)\<lparr>cur_username := u\<rparr>"
    using False by (simp add: change_conv_def)
  have f: "conv_inv (flush_conv s)" by (rule conv_inv_flush[OF assms(1)])
  have e: "conv_month_aggs (flush_conv s) = []"
    using assms(1) by (cases "cur_username s = []") (simp_all add: flush_conv_def conv_inv_def)
  show ?thesis
    unfolding eq using f e assms(2,3) by (simp add: conv_inv_def)
qed

lemma change_conv_cur [simp]: "cur_username (change_conv s u) = u"
  by (simp add: change_conv_def)

lemma conv_inv_step:
  assumes "conv_inv s"
  shows "conv_inv (process_row c me s r)"
proof (cases "row_valid r")
  case False
  then show ?thesis using assms by (simp add: process_row_skip)
next
  case True
  then have u: "row_user r \<noteq> []" by (simp add: row_valid_def)
  have s1: "conv_inv (change_conv s (row_user r))"
    by (rule conv_inv_change[OF assms u row_user_strip])
  show ?thesis
  proof (cases "kept_row c r")
    case False
    then show ?thesis using True s1 by (simp add: process_row_not_kept)
  next
    case kept: True
    define s1 where "s1 = change_conv s (row_user r)"
    define ts where "ts = int_or_zero (row_ts r)"
    define dt where "dt = fromtimestamp c ts"
    define m where "m = dt_month dt"
    define a0 where "a0 = (case map_of (conv_month_aggs s1) m of
                             None \<Rightarrow> new_agg (row_user r) m | Some a \<Rightarrow> a)"
    define res where "res = credit (strip (str_or_empty (row_sender r)) = me) ts (prev_other_ts s1)
                 (observe a0 (dt_day dt) (dt_hour dt))"
    have step: "process_row c me s r =
        s1\<lparr>conv_month_aggs := AList.update m (fst res) (conv_month_aggs s1), prev_other_ts := snd res\<rparr>"
      unfolding process_row_kept[OF kept] Let_def s1_def ts_def dt_def m_def a0_def res_def ..
    have inv1: "conv_inv s1" using \<open>conv_inv (change_conv s (row_user r))\<close> by (simp add: s1_def)
    have cur1: "cur_username s1 = row_user r" by (simp add: s1_def)
    have m: "1 \<le> m" "m \<le> 12" using kept by (simp_all add: kept_row_def m_def dt_def ts_def)
    have entries: "\<forall>kv \<in> set (conv_month_aggs s1).
            username (snd kv) = cur_username s1 \<and> month (snd kv) = fst kv
            \<and> 1 \<le> fst kv \<and> fst kv \<le> 12 \<and> agg_ok (snd kv) \<and> 0 < total (snd kv)"
      using inv1 by (simp add: conv_inv_def)
    have a0: "username a0 = row_user r \<and> month a0 = m \<and> agg_ok a0 \<and> 0 \<le> total a0"
    proof (cases "map_of (conv_month_aggs s1) m")
      case None
      then show ?thesis by (simp add: a0_def new_agg_def agg_ok_def total_def)
    next
      case (Some a)
      then have "(m, a) \<in> set (conv_month_aggs s1)" by (rule map_of_SomeD)
      from bspec[OF entries this] show ?thesis using Some cur1 by (simp add: a0_def)
    qed
    have new: "username (fst res) = cur_username s1 \<and> month (fst res) = m
               \<and> agg_ok (fst res) \<and> 0 < total (fst res)"
      using a0 cur1 by (simp add: res_def credit_total credit_agg_ok observe_agg_ok)
    have sub: "set (AList.update m (fst res) (conv_month_aggs s1))
                 \<subseteq> insert (m, fst res) (set (conv_month_aggs s1))"
      by (rule set_update_subset)
    have entries': "\<forall>kv \<in> set (AList.update m (fst res) (conv_month_aggs s1)).
            username (snd kv) = cur_username s1 \<and> month (snd kv) = fst kv
            \<and> 1 \<le> fst kv \<and> fst kv \<le> 12 \<and> agg_ok (snd kv) \<and> 0 < total (snd kv)"
      using sub entries new m by auto
    have d: "distinct (map fst (AList.update m (fst res) (conv_month_aggs s1)))"
      using inv1 by (simp add: conv_inv_def distinct_update)
    show ?thesis
      unfolding step conv_inv_def using inv1 u cur1 entries' d
      by (simp add: conv_inv_def)
  qed
qed

lemma conv_inv_foldl: "conv_inv s \<Longrightarrow> conv_inv (foldl (process_row c me) s rows)"
  by (induction rows arbitrary: s) (simp_all add: conv_inv_step)

lemma conv_inv_loop: "conv_inv (run_loop c me rows)"
  unfolding run_loop_def by (rule conv_inv_foldl[OF conv_inv_init])

lemma conv_inv_pass: "conv_inv (run_pass c me rows)"
  unfolding run_pass_def by (rule conv_inv_flush[OF conv_inv_loop])


lemma process_row_cur:
  "cur_username (process_row c me s r) = (if row_valid r then row_user r else cur_username s)"
proof (cases "row_valid r")
  case False
  then show ?thesis by (simp add: process_row_skip)
next
  case True
  show ?thesis
  proof (cases "kept_row c r")
    case False
    then show ?thesis using True by (simp add: process_row_not_kept)
  next
    case kept: True
    show ?thesis using True by (simp add: process_row_kept[OF kept] Let_def)
  qed
qed

lemma change_conv_pool:
  "per_month_aggs (change_conv s u) m =
     (if u \<noteq> cur_username s \<and> cur_username s \<noteq> []
      then per_month_aggs s m @ flushed_of (conv_month_aggs s) m else per_month_aggs s m)"
  by (simp add: change_conv_def flush_conv_pool)

lemma process_row_pool:
  "per_month_aggs (process_row c me s r) m =
     (if row_valid r \<and> row_user r \<noteq> cur_username s \<and> cur_username s \<noteq> []
      then per_month_aggs s m @ flushed_of (conv_month_aggs s) m else per_month_aggs s m)"
proof (cases "row_valid r")
  case False
  then show ?thesis by (simp add: process_row_skip)
next
  case True
  show ?thesis
  proof (cases "kept_row c r")
    case False
    then show ?thesis using True by (simp add: process_row_not_kept change_conv_pool)
  next
    case kept: True
    show ?thesis using True by (simp add: process_row_kept[OF kept] Let_def change_conv_pool)
  qed
qed

lemma foldl_pool_prefix:
  "\<exists>zs. per_month_aggs (foldl (process_row c me) s rows) m = per_month_aggs s m @ zs"
proof (induction rows arbitrary: s)
  case Nil
  show ?case by simp
next
  case (Cons r rows)
  obtain zs where zs: "per_month_aggs (foldl (process_row c me) (process_row c me s r) rows) m
      = per_month_aggs (process_row c me s r) m @ zs"
    using Cons.IH[of "process_row c me s r"] by blast
  have "\<exists>ys. per_month_aggs (process_row c me s r) m = per_month_aggs s m @ ys"
    by (simp add: process_row_pool)
  then obtain ys where ys: "per_month_aggs (process_row c me s r) m = per_month_aggs s m @ ys"
    by blast
  show ?case using zs ys by simp
qed

lemma flush_pool_prefix: "\<exists>zs. per_month_aggs (flush_conv s) m = per_month_aggs s m @ zs"
  by (simp add: flush_conv_pool)

lemma foldl_cur:
  "cur_username (foldl (process_row c me) s rows) =
     (if filter row_valid rows = [] then cur_username s
      else row_user (last (filter row_valid rows)))"
proof (induction rows arbitrary: s)
  case Nil
  show ?case by simp
next
  case (Cons r rows)
  show ?case
    using Cons.IH[of "process_row c me s r"] by (simp add: process_row_cur)
qed

lemma pool_flushed_distinct:
  assumes inv: "conv_inv s" and below: "pool_below s"
  shows "distinct (map username (per_month_aggs s m @ flushed_of (conv_month_aggs s) m))
    \<and> (\<forall>a \<in> set (per_month_aggs s m @ flushed_of (conv_month_aggs s) m).
          username a \<le> cur_username s)"
proof -
  have old: "\<forall>a \<in> set (per_month_aggs s m). username a < cur_username s"
    and dold: "distinct (map username (per_month_aggs s m))"
    using below by (simp_all add: pool_below_def)
  have entries: "\<forall>kv \<in> set (conv_month_aggs s). username (snd kv) = cur_username s"
    using inv by (simp add: conv_inv_def)
  have new: "\<forall>a \<in> set (flushed_of (conv_month_aggs s) m). username a = cur_username s"
  proof
    fix a assume "a \<in> set (flushed_of (conv_month_aggs s) m)"
    then have "(m, a) \<in> set (conv_month_aggs s)" by (simp add: flushed_of_set)
    from bspec[OF entries this] show "username a = cur_username s" by simp
  qed
  have "distinct (map fst (conv_month_aggs s))" using inv by (simp add: conv_inv_def)
  then have "length (map username (flushed_of (conv_month_aggs s) m)) \<le> 1"
    using flushed_of_length[of "conv_month_aggs s" m] by simp
  then have dnew: "distinct (map username (flushed_of (conv_month_aggs s) m))"
    by (cases "map username (flushed_of (conv_month_aggs s) m)") auto
  have disj: "set (map username (per_month_aggs s m))
                \<inter> set (map username (flushed_of (conv_month_aggs s) m)) = {}"
    using old new by fastforce
  have "distinct (map username (per_month_aggs s m @ flushed_of (conv_month_aggs s) m))"
    using dold dnew disj by simp
  moreover have "\<forall>a \<in> set (per_month_aggs s m @ flushed_of (conv_month_aggs s) m).
      username a \<le> cur_username s"
    using old new by fastforce
  ultimately show ?thesis by simp
qed

lemma pool_below_flushed:
  assumes inv: "conv_inv s" and below: "pool_below s" and less: "cur_username s < u"
  shows "distinct (map username (per_month_aggs s m @ flushed_of (conv_month_aggs s) m))
    \<and> (\<forall>a \<in> set (per_month_aggs s m @ flushed_of (conv_month_aggs s) m). username a < u)"
  using pool_flushed_distinct[OF inv below, of m] less by fastforce

lemma pool_below_step:
  assumes inv: "conv_inv s" and below: "pool_below s"
    and le: "row_valid r \<longrightarrow> cur_username s \<le> row_user r"
  shows "pool_below (process_row c me s r)"
proof (cases "row_valid r \<and> row_user r \<noteq> cur_username s")
  case False
  then have "\<And>m. per_month_aggs (process_row c me s r) m = per_month_aggs s m"
    by (auto simp: process_row_pool)
  moreover have "cur_username (process_row c me s r) = cur_username s"
    using False by (auto simp: process_row_cur)
  ultimately show ?thesis using below by (simp add: pool_below_def)
next
  case True
  then have less: "cur_username s < row_user r" using le by (auto simp: less_le)
  have cur: "cur_username (process_row c me s r) = row_user r"
    using True by (simp add: process_row_cur)
  show ?thesis
  proof (cases "cur_username s = []")
    case empty: True
    then have "\<And>m. per_month_aggs s m = []" using inv by (simp add: conv_inv_def)
    then show ?thesis using empty by (simp add: pool_below_def process_row_pool)
  next
    case False
    then have "\<And>m. per_month_aggs (process_row c me s r) m
        = per_month_aggs s m @ flushed_of (conv_month_aggs s) m"
      using True by (simp add: process_row_pool)
    then show ?thesis
      unfolding pool_below_def cur using pool_below_flushed[OF inv below less] by simp
  qed
qed

lemma pool_below_foldl:
  assumes "conv_inv s" and "pool_below s"
    and "sorted (map row_user (filter row_valid rows))"
    and "\<forall>r \<in> set rows. row_valid r \<longrightarrow> cur_username s \<le> row_user r"
  shows "pool_below (foldl (process_row c me) s rows)"
  using assms
proof (induction rows arbitrary: s)
  case Nil
  then show ?case by simp
next
  case (Cons r rows)
  let ?s = "process_row c me s r"
  have inv: "conv_inv ?s" by (rule conv_inv_step[OF Cons.prems(1)])
  have below: "pool_below ?s"
    by (rule pool_below_step[OF Cons.prems(1,2)]) (use Cons.prems(4) in simp)
  have srt: "sorted (map row_user (filter row_valid rows))"
    using Cons.prems(3) by (simp split: if_splits)
  have le: "\<forall>x \<in> set rows. row_valid x \<longrightarrow> cur_username ?s \<le> row_user x"
  proof (cases "row_valid r")
    case True
    then show ?thesis using Cons.prems(3) by (auto simp: process_row_cur)
  next
    case False
    then show ?thesis using Cons.prems(4) by (simp add: process_row_cur)
  qed
  show ?case using Cons.IH[OF inv below srt le] by simp
qed

lemma pool_below_init: "pool_below init_state"
  by (simp add: pool_below_def init_state_def)

lemma pool_below_loop:
  assumes "rows_ordered rows"
  shows "pool_below (run_loop c me rows)"
  unfolding run_loop_def
  by (rule pool_below_foldl[OF conv_inv_init pool_below_init])
     (use assms in \<open>simp_all add: rows_ordered_def init_state_def\<close>)

lemma rows_ordered_prefix: "rows_ordered (xs @ ys) \<Longrightarrow> rows_ordered xs"
  by (simp add: rows_ordered_def sorted_append)

lemma loop_cur_le:
  assumes "rows_ordered (xs @ ys)" and "r \<in> set ys" and "row_valid r"
  shows "cur_username (run_loop c me xs) \<le> row_user r"
proof (cases "filter row_valid xs = []")
  case True
  then show ?thesis by (simp add: run_loop_def foldl_cur init_state_def)
next
  case False
  then have "last (filter row_valid xs) \<in> set (filter row_valid xs)" by (rule last_in_set)
  moreover have "\<forall>x \<in> set (filter row_valid xs). \<forall>y \<in> set (filter row_valid ys).
      row_user x \<le> row_user y"
    using assms(1) by (simp add: rows_ordered_def sorted_append)
  ultimately have "row_user (last (filter row_valid xs)) \<le> row_user r"
    using assms(2,3) by simp
  then show ?thesis using False by (simp add: run_loop_def foldl_cur)
qed

lemma pass_distinct:
  assumes "rows_ordered rows"
  shows "distinct (map username (per_month_aggs (run_pass c me rows) m))"
  using pool_flushed_distinct[OF conv_inv_loop pool_below_loop[OF assms], of c me m]
  by (simp add: run_pass_def flush_conv_pool)

lemma change_conv_idem [simp]: "change_conv (change_conv s u) u = change_conv s u"
  by (simp add: change_conv_def)

lemma process_row_change_conv:
  assumes "row_valid r"
  shows "process_row c me (change_conv s (row_user r)) r = process_row c me s r"
proof (cases "kept_row c r")
  case False
  then show ?thesis using assms by (simp add: process_row_not_kept)
next
  case True
  show ?thesis by (simp add: process_row_kept[OF True])
qed

lemma flush_conv_reset:
  assumes "conv_inv s"
  shows "conv_month_aggs (flush_conv s) = [] \<and> prev_other_ts (flush_conv s) = None
    \<and> per_month_aggs (flush_conv s) m = per_month_aggs s m @ flushed_of (conv_month_aggs s) m"
  using assms by (cases "cur_username s = []") (simp_all add: flush_conv_def conv_inv_def foldl_flush_item)

lemma run_loop_append:
  "run_loop c me (xs @ ys) = foldl (process_row c me) (run_loop c me xs) ys"
  by (simp add: run_loop_def)

lemma pass_pool_prefix:
  "\<exists>zs. per_month_aggs (run_pass c me (xs @ ys)) m = per_month_aggs (run_loop c me xs) m @ zs"
proof -
  obtain zs1 where 1: "per_month_aggs (run_loop c me (xs @ ys)) m = per_month_aggs (run_loop c me xs) m @ zs1"
    unfolding run_loop_append using foldl_pool_prefix by blast
  obtain zs2 where 2: "per_month_aggs (run_pass c me (xs @ ys)) m = per_month_aggs (run_loop c me (xs @ ys)) m @ zs2"
    unfolding run_pass_def using flush_pool_prefix by blast
  show ?thesis using 1 2 by simp
qed

lemma pooled_conversation_over:
  assumes ord: "rows_ordered (xs @ ys)"
    and a: "a \<in> set (per_month_aggs (run_loop c me xs) m)"
    and r: "r \<in> set ys" "row_valid r"
  shows "row_user r \<noteq> username a"
proof -
  have "pool_below (run_loop c me xs)"
    by (rule pool_below_loop[OF rows_ordered_prefix[OF ord]])
  then have "username a < cur_username (run_loop c me xs)"
    using a by (simp add: pool_below_def)
  moreover have "cur_username (run_loop c me xs) \<le> row_user r"
    by (rule loop_cur_le[OF ord r])
  ultimately show ?thesis by auto
qed

lemma raw_ordered_rows_ordered:
  assumes "raw_ordered rows" and "rows_unpadded rows"
  shows "rows_ordered rows"
proof -
  have srt: "sorted (map raw_user (filter row_valid rows))"
    using assms(1) unfolding raw_ordered_def by (rule sorted_filter)
  have eq: "map row_user (filter row_valid rows) = map raw_user (filter row_valid rows)"
  proof (rule map_cong[OF refl])
    fix r assume "r \<in> set (filter row_valid rows)"
    then have "r \<in> set rows" by simp
    then show "row_user r = raw_user r"
      using assms(2) by (simp add: rows_unpadded_def row_user_def raw_user_def)
  qed
  show ?thesis unfolding rows_ordered_def eq by (rule srt)
qed

text \<open>
  Claim C2, as stated, fails in its last part: the pass removes the white space around
  the name of a conversation, and the order of the stored names is not the order of the
  names so read. Three rows in ascending order of the stored name, the first with a
  padded name of the conversation of the third, leave two records of this conversation
  in the pool of January.
\<close>

theorem padded_name_counterexample:
  "raw_ordered rows_padded
   \<and> map username (per_month_aggs (run_pass collab_example ''wxid_me'' rows_padded) 1)
       = [''wxid_b'', ''wxid_a'', ''wxid_b'']
   \<and> \<not> distinct (map username (per_month_aggs (run_pass collab_example ''wxid_me'' rows_padded) 1))"
  by code_simp

text \<open>
  Claim C2, amended. When a row that passes the first guard belongs to another
  conversation than the current one, the loop goes on from the state in which every
  record in progress with a positive total, under a month from 1 to 12, has been appended
  to the pool of its month, the records in progress are none and the pending timestamp
  is unset; the same flush ends the pass. Every pooled record sits under its own month.
  On rows in ascending order of the stored name of the conversation, none of them
  padded, and more generally on rows in ascending order of the name without the white
  space around it, the pool of a month holds at most one record of a conversation, the
  pool only grows, and once a record is pooled no later row of the pass belongs to its
  conversation.
\<close>

theorem flush_on_conversation_change:
  "(\<forall>r. row_valid r \<and> row_user r \<noteq> cur_username (run_loop c me rows) \<longrightarrow>
       process_row c me (run_loop c me rows) r =
       process_row c me
         \<lparr>cur_username = row_user r, conv_month_aggs = [], prev_other_ts = None,
          per_month_aggs = (\<lambda>m. per_month_aggs (run_loop c me rows) m
                                  @ flushed_of (conv_month_aggs (run_loop c me rows)) m)\<rparr> r)
   \<and> conv_month_aggs (run_pass c me rows) = [] \<and> prev_other_ts (run_pass c me rows) = None
   \<and> (\<forall>m. per_month_aggs (run_pass c me rows) m =
            per_month_aggs (run_loop c me rows) m
              @ flushed_of (conv_month_aggs (run_loop c me rows)) m)
   \<and> (\<forall>m. \<forall>a \<in> set (per_month_aggs (run_pass c me rows) m).
            month a = m \<and> 1 \<le> m \<and> m \<le> 12 \<and> 0 < total a)
   \<and> (raw_ordered rows \<and> rows_unpadded rows \<or> rows_ordered rows \<longrightarrow>
        (\<forall>m. distinct (map username (per_month_aggs (run_pass c me rows) m)))
        \<and> (\<forall>xs ys m. rows = xs @ ys \<longrightarrow>
              (\<exists>zs. per_month_aggs (run_pass c me rows) m = per_month_aggs (run_loop c me xs) m @ zs)
              \<and> (\<forall>a \<in> set (per_month_aggs (run_loop c me xs) m).
                    \<forall>r \<in> set ys. row_valid r \<longrightarrow> row_user r \<noteq> username a)))"
proof -
  let ?L = "run_loop c me rows"
  have inv: "conv_inv ?L" by (rule conv_inv_loop)
  have change: "process_row c me ?L r =
       process_row c me
         \<lparr>cur_username = row_user r, conv_month_aggs = [], prev_other_ts = None,
          per_month_aggs = (\<lambda>m. per_month_aggs ?L m @ flushed_of (conv_month_aggs ?L) m)\<rparr> r"
    if "row_valid r \<and> row_user r \<noteq> cur_username ?L" for r
    using process_row_change_conv[of r c me ?L] change_conv_eq[OF inv, of "row_user r"] that
    by simp
  have final: "conv_month_aggs (run_pass c me rows) = [] \<and> prev_other_ts (run_pass c me rows) = None
    \<and> per_month_aggs (run_pass c me rows) m = per_month_aggs ?L m @ flushed_of (conv_month_aggs ?L) m"
    for m
    unfolding run_pass_def by (rule flush_conv_reset[OF inv])
  have pooled: "\<forall>a \<in> set (per_month_aggs (run_pass c me rows) m).
            month a = m \<and> 1 \<le> m \<and> m \<le> 12 \<and> 0 < total a" for m
    using conv_inv_pass[of c me rows] by (simp add: conv_inv_def)
  have ordered: "(\<forall>m. distinct (map username (per_month_aggs (run_pass c me rows) m)))
        \<and> (\<forall>xs ys m. rows = xs @ ys \<longrightarrow>
              (\<exists>zs. per_month_aggs (run_pass c me rows) m = per_month_aggs (run_loop c me xs) m @ zs)
              \<and> (\<forall>a \<in> set (per_month_aggs (run_loop c me xs) m).
                    \<forall>r \<in> set ys. row_valid r \<longrightarrow> row_user r \<noteq> username a))"
    if hyp: "raw_ordered rows \<and> rows_unpadded rows \<or> rows_ordered rows"
  proof (intro conjI allI impI ballI)
    have ord: "rows_ordered rows" using hyp raw_ordered_rows_ordered by blast
    fix m show "distinct (map username (per_month_aggs (run_pass c me rows) m))"
      by (rule pass_distinct[OF ord])
  next
    fix xs ys m assume "rows = xs @ ys"
    then show "\<exists>zs. per_month_aggs (run_pass c me rows) m = per_month_aggs (run_loop c me xs) m @ zs"
      using pass_pool_prefix[of c me xs ys m] by simp
  next
    have ord: "rows_ordered rows" using hyp raw_ordered_rows_ordered by blast
    fix xs ys m a r
    assume "rows = xs @ ys" "a \<in> set (per_month_aggs (run_loop c me xs) m)" "r \<in> set ys" "row_valid r"
    then show "row_user r \<noteq> username a"
      using pooled_conversation_over[of xs ys a c me m r] ord by simp
  qed
  show ?thesis
    using change final pooled ordered by blast
qed


lemma agg_at_update:
  "agg_at (s\<lparr>conv_month_aggs := AList.update m a (conv_month_aggs s), prev_other_ts := p\<rparr>) k
     = (if k = m then a else agg_at s k)"
  by (simp add: agg_at_def update_conv' split: option.splits)

lemma agg_at_update_conv:
  "agg_at (s\<lparr>conv_month_aggs := AList.update m a (conv_month_aggs s)\<rparr>) k
     = (if k = m then a else agg_at s k)"
  by (simp add: agg_at_def update_conv' split: option.splits)

lemma process_row_same_conv:
  assumes "kept_row c r" and "row_user r = cur_username s"
  shows "process_row c me s r =
    (let ts = int_or_zero (row_ts r);
         dt = fromtimestamp c ts;
         m = dt_month dt;
         res = credit (strip (str_or_empty (row_sender r)) = me) ts (prev_other_ts s)
                 (observe (agg_at s m) (dt_day dt) (dt_hour dt))
     in s\<lparr>conv_month_aggs := AList.update m (fst res) (conv_month_aggs s),
           prev_other_ts := snd res\<rparr>)"
proof -
  have "change_conv s (row_user r) = s" using assms(2) by (simp add: change_conv_def)
  then show ?thesis
    unfolding process_row_kept[OF assms(1)] agg_at_def Let_def assms(2)[symmetric] by simp
qed

text \<open>The effect of one kept row of the current conversation on the record of its month.\<close>

lemma same_conv_incoming:
  assumes "kept_row c r" and "row_user r = cur_username s"
    and "strip (str_or_empty (row_sender r)) \<noteq> me"
    and "ts = int_or_zero (row_ts r)" and "m = dt_month (fromtimestamp c ts)"
    and "s' = process_row c me s r"
  shows "prev_other_ts s' = Some ts" 
    and "incoming (agg_at s' m) = incoming (agg_at s m) + 1"
    and "outgoing (agg_at s' m) = outgoing (agg_at s m)"
    and "replies (agg_at s' m) = replies (agg_at s m)"
    and "sum_gap (agg_at s' m) = sum_gap (agg_at s m)"
    and "sum_gap_capped (agg_at s' m) = sum_gap_capped (agg_at s m)"
    and "k \<noteq> m \<Longrightarrow> agg_at s' k = agg_at s k"
    and "cur_username s' = cur_username s"
    and "per_month_aggs s' = per_month_aggs s"
  using assms(3-)
  unfolding process_row_same_conv[OF assms(1,2)] Let_def
  by (simp_all add: agg_at_update credit_incoming)

lemma same_conv_reply:
  assumes "kept_row c r" and "row_user r = cur_username s"
    and "strip (str_or_empty (row_sender r)) = me"
    and "ts = int_or_zero (row_ts r)" and "m = dt_month (fromtimestamp c ts)"
    and "s' = process_row c me s r"
    and "prev_other_ts s = Some p" and "p \<le> ts"
  shows "prev_other_ts s' = None" 
    and "incoming (agg_at s' m) = incoming (agg_at s m)"
    and "outgoing (agg_at s' m) = outgoing (agg_at s m) + 1"
    and "replies (agg_at s' m) = replies (agg_at s m) + 1"
    and "sum_gap (agg_at s' m) = sum_gap (agg_at s m) + (ts - p)"
    and "sum_gap_capped (agg_at s' m) = sum_gap_capped (agg_at s m) + min (ts - p) 21600"
    and "k \<noteq> m \<Longrightarrow> agg_at s' k = agg_at s k"
    and "cur_username s' = cur_username s"
    and "per_month_aggs s' = per_month_aggs s"
  using assms(3-)
  unfolding process_row_same_conv[OF assms(1,2)] Let_def
  by (simp_all add: agg_at_update credit_outgoing_reply gap_cap_seconds_def)

lemma same_conv_no_reply:
  assumes "kept_row c r" and "row_user r = cur_username s"
    and "strip (str_or_empty (row_sender r)) = me"
    and "ts = int_or_zero (row_ts r)" and "m = dt_month (fromtimestamp c ts)"
    and "s' = process_row c me s r"
    and "\<forall>p. prev_other_ts s = Some p \<longrightarrow> \<not> p \<le> ts"
  shows "prev_other_ts s' = prev_other_ts s" 
    and "incoming (agg_at s' m) = incoming (agg_at s m)"
    and "outgoing (agg_at s' m) = outgoing (agg_at s m) + 1"
    and "replies (agg_at s' m) = replies (agg_at s m)"
    and "sum_gap (agg_at s' m) = sum_gap (agg_at s m)"
    and "sum_gap_capped (agg_at s' m) = sum_gap_capped (agg_at s m)"
    and "k \<noteq> m \<Longrightarrow> agg_at s' k = agg_at s k"
    and "cur_username s' = cur_username s"
    and "per_month_aggs s' = per_month_aggs s"
proof -
  have c: "case prev_other_ts s of None \<Rightarrow> True | Some q \<Rightarrow> \<not> q \<le> int_or_zero (row_ts r)"
    using assms(7) assms(4) by (simp split: option.splits)
  show "prev_other_ts s' = prev_other_ts s" 
    and "incoming (agg_at s' m) = incoming (agg_at s m)"
    and "outgoing (agg_at s' m) = outgoing (agg_at s m) + 1"
    and "replies (agg_at s' m) = replies (agg_at s m)"
    and "sum_gap (agg_at s' m) = sum_gap (agg_at s m)"
    and "sum_gap_capped (agg_at s' m) = sum_gap_capped (agg_at s m)"
    and "k \<noteq> m \<Longrightarrow> agg_at s' k = agg_at s k"
    and "cur_username s' = cur_username s"
    and "per_month_aggs s' = per_month_aggs s"
    using assms(3-6)
    unfolding process_row_same_conv[OF assms(1,2)] Let_def
    by (simp_all add: agg_at_update agg_at_update_conv credit_outgoing_no_reply[OF c])
qed

lemma scenario_three_rows:
  assumes u: "strip u = u" "u \<noteq> []" "keep_session c u" and t0: "0 < t0"
    and mon: "dt_month (fromtimestamp c t0) = m" "dt_month (fromtimestamp c (t0 + 60)) = m"
      "dt_month (fromtimestamp c (t0 + 120)) = m" "1 \<le> m" "m \<le> 12"
    and who: "strip other \<noteq> me" "strip mine = me"
  shows "\<exists>a. per_month_aggs (run_pass c me
            [mk_row u other t0, mk_row u mine (t0 + 60), mk_row u mine (t0 + 120)]) m = [a]
          \<and> username a = u \<and> month a = m \<and> incoming a = 1 \<and> outgoing a = 2
          \<and> replies a = 1 \<and> sum_gap a = 60 \<and> sum_gap_capped a = 60"
  using assms
  by (simp add: run_pass_def run_loop_def mk_row_def process_row_def
      str_or_empty_def int_or_zero_def change_conv_def flush_conv_def init_state_def
      Let_def new_agg_def credit_def flush_item_def total_def gap_cap_seconds_def)

lemma same_conv_not_kept:
  assumes "row_user r = cur_username s" and "\<not> kept_row c r"
  shows "process_row c me s r = s"
proof (cases "row_valid r")
  case True
  then show ?thesis using assms by (simp add: process_row_not_kept change_conv_def)
next
  case False
  then show ?thesis by (simp add: process_row_skip)
qed

lemma pending_kept:
  assumes p: "prev_other_ts s = Some p"
    and changed: "prev_other_ts (process_row c me s r) \<noteq> Some p"
  shows "(row_valid r \<and> row_user r \<noteq> cur_username s)
       \<or> (kept_row c r \<and> row_user r = cur_username s
            \<and> (strip (str_or_empty (row_sender r)) \<noteq> me
                \<or> p \<le> int_or_zero (row_ts r)))"
proof (rule ccontr)
  assume neg: "\<not> ?thesis"
  show False
  proof (cases "row_valid r")
    case False
    then show False using p changed by (simp add: process_row_skip)
  next
    case True
    then have same: "row_user r = cur_username s" using neg by blast
    show False
    proof (cases "kept_row c r")
      case False
      then show False using p changed same by (simp add: same_conv_not_kept)
    next
      case kept: True
      then have me: "strip (str_or_empty (row_sender r)) = me"
        and late: "\<not> p \<le> int_or_zero (row_ts r)"
        using neg same by blast+
      have "\<forall>q. prev_other_ts s = Some q \<longrightarrow> \<not> q \<le> int_or_zero (row_ts r)"
        using p late by simp
      from same_conv_no_reply(1)[OF kept same me refl refl refl this]
      show False using p changed by simp
    qed
  qed
qed

lemma kept_row_step:
  assumes k: "kept_row c r" and same: "row_user r = cur_username s"
  shows "(strip (str_or_empty (row_sender r)) = me \<longrightarrow>
             (\<forall>p. prev_other_ts s = Some p \<and> p \<le> int_or_zero (row_ts r) \<longrightarrow>
                  replies (agg_at (process_row c me s r) (dt_month (fromtimestamp c (int_or_zero (row_ts r)))))
                    = replies (agg_at s (dt_month (fromtimestamp c (int_or_zero (row_ts r))))) + 1
                \<and> sum_gap (agg_at (process_row c me s r) (dt_month (fromtimestamp c (int_or_zero (row_ts r)))))
                    = sum_gap (agg_at s (dt_month (fromtimestamp c (int_or_zero (row_ts r)))))
                      + (int_or_zero (row_ts r) - p)
                \<and> sum_gap_capped (agg_at (process_row c me s r) (dt_month (fromtimestamp c (int_or_zero (row_ts r)))))
                    = sum_gap_capped (agg_at s (dt_month (fromtimestamp c (int_or_zero (row_ts r)))))
                      + min (int_or_zero (row_ts r) - p) 21600
                \<and> outgoing (agg_at (process_row c me s r) (dt_month (fromtimestamp c (int_or_zero (row_ts r)))))
                    = outgoing (agg_at s (dt_month (fromtimestamp c (int_or_zero (row_ts r))))) + 1
                \<and> prev_other_ts (process_row c me s r) = None)
             \<and> ((\<forall>p. prev_other_ts s = Some p \<longrightarrow> \<not> p \<le> int_or_zero (row_ts r)) \<longrightarrow>
                  replies (agg_at (process_row c me s r) (dt_month (fromtimestamp c (int_or_zero (row_ts r)))))
                    = replies (agg_at s (dt_month (fromtimestamp c (int_or_zero (row_ts r)))))
                \<and> sum_gap (agg_at (process_row c me s r) (dt_month (fromtimestamp c (int_or_zero (row_ts r)))))
                    = sum_gap (agg_at s (dt_month (fromtimestamp c (int_or_zero (row_ts r)))))
                \<and> sum_gap_capped (agg_at (process_row c me s r) (dt_month (fromtimestamp c (int_or_zero (row_ts r)))))
                    = sum_gap_capped (agg_at s (dt_month (fromtimestamp c (int_or_zero (row_ts r)))))
                \<and> outgoing (agg_at (process_row c me s r) (dt_month (fromtimestamp c (int_or_zero (row_ts r)))))
                    = outgoing (agg_at s (dt_month (fromtimestamp c (int_or_zero (row_ts r))))) + 1
                \<and> prev_other_ts (process_row c me s r) = prev_other_ts s))
          \<and> (strip (str_or_empty (row_sender r)) \<noteq> me \<longrightarrow>
                  prev_other_ts (process_row c me s r) = Some (int_or_zero (row_ts r))
                \<and> incoming (agg_at (process_row c me s r) (dt_month (fromtimestamp c (int_or_zero (row_ts r)))))
                    = incoming (agg_at s (dt_month (fromtimestamp c (int_or_zero (row_ts r))))) + 1
                \<and> replies (agg_at (process_row c me s r) (dt_month (fromtimestamp c (int_or_zero (row_ts r)))))
                    = replies (agg_at s (dt_month (fromtimestamp c (int_or_zero (row_ts r)))))
                \<and> sum_gap (agg_at (process_row c me s r) (dt_month (fromtimestamp c (int_or_zero (row_ts r)))))
                    = sum_gap (agg_at s (dt_month (fromtimestamp c (int_or_zero (row_ts r)))))
                \<and> sum_gap_capped (agg_at (process_row c me s r) (dt_month (fromtimestamp c (int_or_zero (row_ts r)))))
                    = sum_gap_capped (agg_at s (dt_month (fromtimestamp c (int_or_zero (row_ts r))))))"
proof (intro conjI impI allI)
  fix p
  assume me: "strip (str_or_empty (row_sender r)) = me"
    and p: "prev_other_ts s = Some p \<and> p \<le> int_or_zero (row_ts r)"
  note rep = same_conv_reply[OF k same me refl refl refl conjunct1[OF p] conjunct2[OF p]]
  show "replies (agg_at (process_row c me s r) (dt_month (fromtimestamp c (int_or_zero (row_ts r)))))
                    = replies (agg_at s (dt_month (fromtimestamp c (int_or_zero (row_ts r))))) + 1"
    by (rule rep(4))
  show "sum_gap (agg_at (process_row c me s r) (dt_month (fromtimestamp c (int_or_zero (row_ts r)))))
                    = sum_gap (agg_at s (dt_month (fromtimestamp c (int_or_zero (row_ts r)))))
                      + (int_or_zero (row_ts r) - p)"
    by (rule rep(5))
  show "sum_gap_capped (agg_at (process_row c me s r) (dt_month (fromtimestamp c (int_or_zero (row_ts r)))))
                    = sum_gap_capped (agg_at s (dt_month (fromtimestamp c (int_or_zero (row_ts r)))))
                      + min (int_or_zero (row_ts r) - p) 21600"
    by (rule rep(6))
  show "outgoing (agg_at (process_row c me s r) (dt_month (fromtimestamp c (int_or_zero (row_ts r)))))
                    = outgoing (agg_at s (dt_month (fromtimestamp c (int_or_zero (row_ts r))))) + 1"
    by (rule rep(3))
  show "prev_other_ts (process_row c me s r) = None"
    by (rule rep(1))
next
  assume me: "strip (str_or_empty (row_sender r)) = me"
    and np: "\<forall>p. prev_other_ts s = Some p \<longrightarrow> \<not> p \<le> int_or_zero (row_ts r)"
  note nrep = same_conv_no_reply[OF k same me refl refl refl np]
  show "replies (agg_at (process_row c me s r) (dt_month (fromtimestamp c (int_or_zero (row_ts r)))))
                    = replies (agg_at s (dt_month (fromtimestamp c (int_or_zero (row_ts r)))))"
    by (rule nrep(4))
  show "sum_gap (agg_at (process_row c me s r) (dt_month (fromtimestamp c (int_or_zero (row_ts r)))))
                    = sum_gap (agg_at s (dt_month (fromtimestamp c (int_or_zero (row_ts r)))))"
    by (rule nrep(5))
  show "sum_gap_capped (agg_at (process_row c me s r) (dt_month (fromtimestamp c (int_or_zero (row_ts r)))))
                    = sum_gap_capped (agg_at s (dt_month (fromtimestamp c (int_or_zero (row_ts r)))))"
    by (rule nrep(6))
  show "outgoing (agg_at (process_row c me s r) (dt_month (fromtimestamp c (int_or_zero (row_ts r)))))
                    = outgoing (agg_at s (dt_month (fromtimestamp c (int_or_zero (row_ts r))))) + 1"
    by (rule nrep(3))
  show "prev_other_ts (process_row c me s r) = prev_other_ts s"
    by (rule nrep(1))
next
  assume other: "strip (str_or_empty (row_sender r)) \<noteq> me"
  note inc = same_conv_incoming[OF k same other refl refl refl]
  show "prev_other_ts (process_row c me s r) = Some (int_or_zero (row_ts r))"
    by (rule inc(1))
  show "incoming (agg_at (process_row c me s r) (dt_month (fromtimestamp c (int_or_zero (row_ts r)))))
                    = incoming (agg_at s (dt_month (fromtimestamp c (int_or_zero (row_ts r))))) + 1"
    by (rule inc(2))
  show "replies (agg_at (process_row c me s r) (dt_month (fromtimestamp c (int_or_zero (row_ts r)))))
                    = replies (agg_at s (dt_month (fromtimestamp c (int_or_zero (row_ts r)))))"
    by (rule inc(4))
  show "sum_gap (agg_at (process_row c me s r) (dt_month (fromtimestamp c (int_or_zero (row_ts r)))))
                    = sum_gap (agg_at s (dt_month (fromtimestamp c (int_or_zero (row_ts r)))))"
    by (rule inc(5))
  show "sum_gap_capped (agg_at (process_row c me s r) (dt_month (fromtimestamp c (int_or_zero (row_ts r)))))
                    = sum_gap_capped (agg_at s (dt_month (fromtimestamp c (int_or_zero (row_ts r)))))"
    by (rule inc(6))
qed


text \<open>
  Claim C3. In one conversation and one month, an incoming message at \<open>t0\<close> followed by
  two outgoing messages at \<open>t0 + 60\<close> and \<open>t0 + 120\<close> gives one pooled record with one
  reply and a gap sum of 60 seconds. In general, for a kept row of the current
  conversation: an outgoing row is credited only when a pending timestamp \<open>p\<close> is set and
  is not after the row's timestamp \<open>ts\<close>; the credit adds one reply, \<open>ts - p\<close> to the gap
  sum and \<open>min (ts - p) 21600\<close> to the capped sum and clears the pending timestamp;
  without credit only the outgoing count changes; an incoming row sets the pending
  timestamp to its own.
\<close>

theorem reply_credit_once:
  assumes u: "strip u = u" "u \<noteq> []" "keep_session c u" and t0: "0 < t0"
    and mon: "dt_month (fromtimestamp c t0) = m" "dt_month (fromtimestamp c (t0 + 60)) = m"
      "dt_month (fromtimestamp c (t0 + 120)) = m" "1 \<le> m" "m \<le> 12"
    and who: "strip other \<noteq> me" "strip mine = me"
  shows "(\<exists>a. per_month_aggs (run_pass c me
            [mk_row u other t0, mk_row u mine (t0 + 60), mk_row u mine (t0 + 120)]) m = [a]
          \<and> username a = u \<and> month a = m \<and> incoming a = 1 \<and> outgoing a = 2
          \<and> replies a = 1 \<and> sum_gap a = 60 \<and> sum_gap_capped a = 60)
    \<and> (\<forall>s r. kept_row c r \<and> row_user r = cur_username s \<longrightarrow>
          (let ts = int_or_zero (row_ts r);
               k = dt_month (fromtimestamp c ts);
               s' = process_row c me s r
           in (strip (str_or_empty (row_sender r)) = me \<longrightarrow>
             (\<forall>p. prev_other_ts s = Some p \<and> p \<le> ts \<longrightarrow>
                  replies (agg_at s' k) = replies (agg_at s k) + 1
                \<and> sum_gap (agg_at s' k) = sum_gap (agg_at s k) + (ts - p)
                \<and> sum_gap_capped (agg_at s' k) = sum_gap_capped (agg_at s k) + min (ts - p) 21600
                \<and> outgoing (agg_at s' k) = outgoing (agg_at s k) + 1
                \<and> prev_other_ts s' = None)
             \<and> ((\<forall>p. prev_other_ts s = Some p \<longrightarrow> \<not> p \<le> ts) \<longrightarrow>
                  replies (agg_at s' k) = replies (agg_at s k)
                \<and> sum_gap (agg_at s' k) = sum_gap (agg_at s k)
                \<and> sum_gap_capped (agg_at s' k) = sum_gap_capped (agg_at s k)
                \<and> outgoing (agg_at s' k) = outgoing (agg_at s k) + 1
                \<and> prev_other_ts s' = prev_other_ts s))
          \<and> (strip (str_or_empty (row_sender r)) \<noteq> me \<longrightarrow>
                  prev_other_ts s' = Some ts
                \<and> incoming (agg_at s' k) = incoming (agg_at s k) + 1
                \<and> replies (agg_at s' k) = replies (agg_at s k)
                \<and> sum_gap (agg_at s' k) = sum_gap (agg_at s k)
                \<and> sum_gap_capped (agg_at s' k) = sum_gap_capped (agg_at s k))))"
proof (rule conjI)
  show "\<exists>a. per_month_aggs (run_pass c me
            [mk_row u other t0, mk_row u mine (t0 + 60), mk_row u mine (t0 + 120)]) m = [a]
          \<and> username a = u \<and> month a = m \<and> incoming a = 1 \<and> outgoing a = 2
          \<and> replies a = 1 \<and> sum_gap a = 60 \<and> sum_gap_capped a = 60"
    by (rule scenario_three_rows[OF assms])
  show "\<forall>s r. kept_row c r \<and> row_user r = cur_username s \<longrightarrow>
          (let ts = int_or_zero (row_ts r);
               k = dt_month (fromtimestamp c ts);
               s' = process_row c me s r
           in (strip (str_or_empty (row_sender r)) = me \<longrightarrow>
             (\<forall>p. prev_other_ts s = Some p \<and> p \<le> ts \<longrightarrow>
                  replies (agg_at s' k) = replies (agg_at s k) + 1
                \<and> sum_gap (agg_at s' k) = sum_gap (agg_at s k) + (ts - p)
                \<and> sum_gap_capped (agg_at s' k) = sum_gap_capped (agg_at s k) + min (ts - p) 21600
                \<and> outgoing (agg_at s' k) = outgoing (agg_at s k) + 1
                \<and> prev_other_ts s' = None)
             \<and> ((\<forall>p. prev_other_ts s = Some p \<longrightarrow> \<not> p \<le> ts) \<longrightarrow>
                  replies (agg_at s' k) = replies (agg_at s k)
                \<and> sum_gap (agg_at s' k) = sum_gap (agg_at s k)
                \<and> sum_gap_capped (agg_at s' k) = sum_gap_capped (agg_at s k)
                \<and> outgoing (agg_at s' k) = outgoing (agg_at s k) + 1
                \<and> prev_other_ts s' = prev_other_ts s))
          \<and> (strip (str_or_empty (row_sender r)) \<noteq> me \<longrightarrow>
                  prev_other_ts s' = Some ts
                \<and> incoming (agg_at s' k) = incoming (agg_at s k) + 1
                \<and> replies (agg_at s' k) = replies (agg_at s k)
                \<and> sum_gap (agg_at s' k) = sum_gap (agg_at s k)
                \<and> sum_gap_capped (agg_at s' k) = sum_gap_capped (agg_at s k)))"
  proof (intro allI impI)
    fix s :: pass_state and r assume h: "kept_row c r \<and> row_user r = cur_username s"
    show "let ts = int_or_zero (row_ts r);
               k = dt_month (fromtimestamp c ts);
               s' = process_row c me s r
           in (strip (str_or_empty (row_sender r)) = me \<longrightarrow>
             (\<forall>p. prev_other_ts s = Some p \<and> p \<le> ts \<longrightarrow>
                  replies (agg_at s' k) = replies (agg_at s k) + 1
                \<and> sum_gap (agg_at s' k) = sum_gap (agg_at s k) + (ts - p)
                \<and> sum_gap_capped (agg_at s' k) = sum_gap_capped (agg_at s k) + min (ts - p) 21600
                \<and> outgoing (agg_at s' k) = outgoing (agg_at s k) + 1
                \<and> prev_other_ts s' = None)
             \<and> ((\<forall>p. prev_other_ts s = Some p \<longrightarrow> \<not> p \<le> ts) \<longrightarrow>
                  replies (agg_at s' k) = replies (agg_at s k)
                \<and> sum_gap (agg_at s' k) = sum_gap (agg_at s k)
                \<and> sum_gap_capped (agg_at s' k) = sum_gap_capped (agg_at s k)
                \<and> outgoing (agg_at s' k) = outgoing (agg_at s k) + 1
                \<and> prev_other_ts s' = prev_other_ts s))
          \<and> (strip (str_or_empty (row_sender r)) \<noteq> me \<longrightarrow>
                  prev_other_ts s' = Some ts
                \<and> incoming (agg_at s' k) = incoming (agg_at s k) + 1
                \<and> replies (agg_at s' k) = replies (agg_at s k)
                \<and> sum_gap (agg_at s' k) = sum_gap (agg_at s k)
                \<and> sum_gap_capped (agg_at s' k) = sum_gap_capped (agg_at s k))"
      unfolding Let_def by (rule kept_row_step[OF conjunct1[OF h] conjunct2[OF h]])
  qed
qed

lemma example_rows_facts:
  "strip ''wxid_a'' = ''wxid_a''" "strip ''wxid_b'' = ''wxid_b''" "strip ''wxid_c'' = ''wxid_c''"
  "strip ''wxid_me'' = ''wxid_me''"
  "keep_session collab_example u"
  "dt_month (fromtimestamp collab_example t) = 1 + (t div 2678400) mod 12"
  by (simp_all add: strip_def is_space_def collab_example_def)

theorem reply_credit_once_witness:
  "strip ''wxid_a'' = ''wxid_a'' \<and> ''wxid_a'' \<noteq> [] \<and> keep_session collab_example ''wxid_a''
   \<and> (0::int) < 1000
   \<and> dt_month (fromtimestamp collab_example 1000) = 1
   \<and> dt_month (fromtimestamp collab_example (1000 + 60)) = 1
   \<and> dt_month (fromtimestamp collab_example (1000 + 120)) = 1
   \<and> strip ''wxid_a'' \<noteq> ''wxid_me'' \<and> strip ''wxid_me'' = ''wxid_me''
   \<and> (\<exists>a. per_month_aggs (run_pass collab_example ''wxid_me'' rows_one_reply) 1 = [a]
          \<and> replies a = 1 \<and> sum_gap a = 60)"
  using reply_credit_once[of "''wxid_a''" collab_example 1000 1 "''wxid_a''" "''wxid_me''" "''wxid_me''"]
  by (simp add: example_rows_facts rows_one_reply_def) blast

lemma rows_two_convs_raw: "raw_ordered rows_two_convs \<and> rows_unpadded rows_two_convs"
  by code_simp

lemma rows_two_convs_facts:
  "rows_ordered rows_two_convs"
  "row_valid row_third_conv"
  "row_user row_third_conv \<noteq> cur_username (run_loop collab_example ''wxid_me'' rows_two_convs)"
  "rows_two_convs = take 3 rows_two_convs @ [mk_row ''wxid_b'' ''wxid_me'' 230]"
  "row_valid (mk_row ''wxid_b'' ''wxid_me'' 230)"
  "row_user (mk_row ''wxid_b'' ''wxid_me'' 230) = ''wxid_b''"
  "map username (per_month_aggs (run_loop collab_example ''wxid_me'' (take 3 rows_two_convs)) 1)
     = [''wxid_a'']"
  "map username (per_month_aggs (run_pass collab_example ''wxid_me'' rows_two_convs) 1)
     = [''wxid_a'', ''wxid_b'']"
  by code_simp+

theorem flush_on_conversation_change_witness:
  "raw_ordered rows_two_convs \<and> rows_unpadded rows_two_convs
   \<and> row_valid row_third_conv
   \<and> row_user row_third_conv \<noteq> cur_username (run_loop collab_example ''wxid_me'' rows_two_convs)
   \<and> rows_two_convs = take 3 rows_two_convs @ [mk_row ''wxid_b'' ''wxid_me'' 230]
   \<and> row_valid (mk_row ''wxid_b'' ''wxid_me'' 230)
   \<and> map username (per_month_aggs (run_loop collab_example ''wxid_me'' (take 3 rows_two_convs)) 1)
        = [''wxid_a'']
   \<and> row_user (mk_row ''wxid_b'' ''wxid_me'' 230) \<noteq> ''wxid_a''
   \<and> map username (per_month_aggs (run_pass collab_example ''wxid_me'' rows_two_convs) 1)
        = [''wxid_a'', ''wxid_b'']
   \<and> distinct (map username (per_month_aggs (run_pass collab_example ''wxid_me'' rows_two_convs) 1))
   \<and> conv_month_aggs (run_pass collab_example ''wxid_me'' rows_two_convs) = []
   \<and> prev_other_ts (run_pass collab_example ''wxid_me'' rows_two_convs) = None"
proof -
  let ?P = "run_pass collab_example ''wxid_me'' rows_two_convs"
  let ?rb = "mk_row ''wxid_b'' ''wxid_me'' 230"
  note T = flush_on_conversation_change[of collab_example "''wxid_me''" rows_two_convs]
  have ord: "raw_ordered rows_two_convs \<and> rows_unpadded rows_two_convs \<or> rows_ordered rows_two_convs"
    using rows_two_convs_raw by (rule disjI1)
  have fin: "conv_month_aggs ?P = [] \<and> prev_other_ts ?P = None"
    using T by (elim conjE) simp
  have ordered: "(\<forall>m. distinct (map username (per_month_aggs ?P m)))
        \<and> (\<forall>xs ys m. rows_two_convs = xs @ ys \<longrightarrow>
              (\<exists>zs. per_month_aggs ?P m = per_month_aggs (run_loop collab_example ''wxid_me'' xs) m @ zs)
              \<and> (\<forall>a \<in> set (per_month_aggs (run_loop collab_example ''wxid_me'' xs) m).
                    \<forall>r \<in> set ys. row_valid r \<longrightarrow> row_user r \<noteq> username a))"
    using T ord by (elim conjE) (erule mp)
  then have d: "distinct (map username (per_month_aggs ?P 1))" by (elim conjE) (erule allE)
  have "\<forall>a \<in> set (per_month_aggs (run_loop collab_example ''wxid_me'' (take 3 rows_two_convs)) 1).
          \<forall>r \<in> set [?rb]. row_valid r \<longrightarrow> row_user r \<noteq> username a"
    using ordered rows_two_convs_facts(4) by blast
  then have "\<forall>u \<in> set (map username
                 (per_month_aggs (run_loop collab_example ''wxid_me'' (take 3 rows_two_convs)) 1)).
               row_user ?rb \<noteq> u"
    using rows_two_convs_facts(5) by simp
  then have ne: "row_user ?rb \<noteq> ''wxid_a''"
    unfolding rows_two_convs_facts(7) by simp
  show ?thesis
    using conjunct1[OF fin] conjunct2[OF fin] d ne rows_two_convs_facts(2,3,4,5,7,8)
      conjunct1[OF rows_two_convs_raw] conjunct2[OF rows_two_convs_raw]
    by (intro conjI) assumption+
qed

text \<open>
  Claim C10. The pending timestamp belongs to the conversation, not to a month: when an
  incoming message of the current conversation falls in month \<open>m\<close> and the owner's next
  message in a different month \<open>m'\<close> is not earlier, the reply and the whole gap are
  credited to the record of month \<open>m'\<close> and the replies of month \<open>m\<close> stay as they were.
  A row changes a pending timestamp only when it starts another conversation, is an
  incoming message (which replaces it) or is an outgoing message that is credited.
\<close>

theorem pending_crosses_month:
  assumes r1: "kept_row c r1" "row_user r1 = cur_username s"
      "strip (str_or_empty (row_sender r1)) \<noteq> me"
    and r2: "kept_row c r2" "row_user r2 = cur_username s"
      "strip (str_or_empty (row_sender r2)) = me"
    and t: "t1 = int_or_zero (row_ts r1)" "t2 = int_or_zero (row_ts r2)" "t1 \<le> t2"
    and m: "m = dt_month (fromtimestamp c t1)" "m' = dt_month (fromtimestamp c t2)" "m \<noteq> m'"
    and s': "s' = process_row c me (process_row c me s r1) r2"
  shows "replies (agg_at s' m') = replies (agg_at s m') + 1
       \<and> sum_gap (agg_at s' m') = sum_gap (agg_at s m') + (t2 - t1)
       \<and> sum_gap_capped (agg_at s' m') = sum_gap_capped (agg_at s m') + min (t2 - t1) 21600
       \<and> replies (agg_at s' m) = replies (agg_at s m)
       \<and> sum_gap (agg_at s' m) = sum_gap (agg_at s m)
       \<and> prev_other_ts s' = None
       \<and> (\<forall>s0 r p. prev_other_ts s0 = Some p \<and> prev_other_ts (process_row c me s0 r) \<noteq> Some p
             \<longrightarrow> (row_valid r \<and> row_user r \<noteq> cur_username s0)
                 \<or> (kept_row c r \<and> row_user r = cur_username s0
                      \<and> (strip (str_or_empty (row_sender r)) \<noteq> me
                           \<or> p \<le> int_or_zero (row_ts r))))"
proof -
  define s1 where "s1 = process_row c me s r1"
  note inc = same_conv_incoming[OF r1 t(1) m(1) s1_def]
  have same2: "row_user r2 = cur_username s1" using r2(2) inc(8) by simp
  have s2: "s' = process_row c me s1 r2" using s' by (simp add: s1_def)
  have le: "t1 \<le> t2" by (rule t(3))
  note rep = same_conv_reply[OF r2(1) same2 r2(3) t(2) m(2) s2 inc(1) le]
  have a: "agg_at s1 m' = agg_at s m'" using inc(7)[of m'] m(3) by simp
  have b: "agg_at s' m = agg_at s1 m" using rep(7)[of m] m(3) by simp
  have pend: "\<forall>s0 r p. prev_other_ts s0 = Some p \<and> prev_other_ts (process_row c me s0 r) \<noteq> Some p
             \<longrightarrow> (row_valid r \<and> row_user r \<noteq> cur_username s0)
                 \<or> (kept_row c r \<and> row_user r = cur_username s0
                      \<and> (strip (str_or_empty (row_sender r)) \<noteq> me
                           \<or> p \<le> int_or_zero (row_ts r)))"
    using pending_kept by blast
  show ?thesis
    using rep(1,4,5,6) a b inc(4,5) pend by simp
qed

lemma cross_month_facts:
  "kept_row collab_example row_late_january" "row_user row_late_january = cur_username state_example"
  "strip (str_or_empty (row_sender row_late_january)) \<noteq> ''wxid_me''"
  "kept_row collab_example row_early_february" "row_user row_early_february = cur_username state_example"
  "strip (str_or_empty (row_sender row_early_february)) = ''wxid_me''"
  "int_or_zero (row_ts row_late_january) = 2678000" "int_or_zero (row_ts row_early_february) = 2679000"
  "dt_month (fromtimestamp collab_example 2678000) = 1"
  "dt_month (fromtimestamp collab_example 2679000) = 2"
  "replies (agg_at state_example k) = 0" "sum_gap (agg_at state_example k) = 0"
  by (simp_all add: kept_row_def row_valid_def row_user_def row_late_january_def
      row_early_february_def mk_row_def str_or_empty_def int_or_zero_def example_rows_facts
      state_example_def agg_at_def new_agg_def)

theorem pending_crosses_month_witness:
  "kept_row collab_example row_late_january
   \<and> row_user row_late_january = cur_username state_example
   \<and> strip (str_or_empty (row_sender row_late_january)) \<noteq> ''wxid_me''
   \<and> kept_row collab_example row_early_february
   \<and> row_user row_early_february = cur_username state_example
   \<and> strip (str_or_empty (row_sender row_early_february)) = ''wxid_me''
   \<and> int_or_zero (row_ts row_late_january) \<le> int_or_zero (row_ts row_early_february)
   \<and> dt_month (fromtimestamp collab_example (int_or_zero (row_ts row_late_january))) = 1
   \<and> dt_month (fromtimestamp collab_example (int_or_zero (row_ts row_early_february))) = 2
   \<and> replies (agg_at (process_row collab_example ''wxid_me''
         (process_row collab_example ''wxid_me'' state_example row_late_january)
         row_early_february) 2) = 1
   \<and> sum_gap (agg_at (process_row collab_example ''wxid_me''
         (process_row collab_example ''wxid_me'' state_example row_late_january)
         row_early_february) 2) = 1000
   \<and> replies (agg_at (process_row collab_example ''wxid_me''
         (process_row collab_example ''wxid_me'' state_example row_late_january)
         row_early_february) 1) = 0"
  using pending_crosses_month[of collab_example row_late_january state_example "''wxid_me''"
      row_early_february 2678000 2679000 1 2, OF _ _ _ _ _ _ _ _ _ _ _ _ refl]
  by (simp add: cross_month_facts)

section \<open>Properties of the selection\<close>

lemma exact_ops_simps [simp]:
  "fl_lit exact_ops x = x" "fl_add exact_ops x y = x + y" "fl_mul exact_ops x y = x * y"
  "fl_div exact_ops x y = x / y" "fl_log1p exact_ops x = ln (1 + x)"
  by (simp_all add: exact_ops_def)

lemma fl_sane_exact: "fl_sane exact_ops"
proof -
  have "ln (1 + x) \<noteq> 0" if "1 \<le> x" for x :: real
  proof -
    have "0 < ln (1 + x)" using that by (intro ln_gt_zero) linarith
    then show ?thesis by simp
  qed
  moreover have "1 + x \<noteq> 0" if "0 \<le> x" for x :: real using that by linarith
  ultimately show ?thesis by (simp add: fl_sane_def)
qed

lemma weights_fl_exact: "weights_fl exact_ops = default_weights"
  by (simp add: weights_fl_def default_weights_def)

lemma avg_capped_fl_exact: "avg_reply_seconds_capped_fl exact_ops a = avg_reply_seconds_capped a"
  by (simp add: avg_reply_seconds_capped_fl_def avg_reply_seconds_capped_def py_float_def)

text \<open>With exact operations the scorer on doubles is the scorer in exact arithmetic.\<close>

lemma score_month_agg_fl_exact:
  "score_month_agg_fl exact_ops a mi ma t ws = score_month_agg a mi ma t ws"
proof -
  have "0 < ln (1 + real_of_int (max 1 mi))" by (intro ln_gt_zero) simp
  then have "ln (1 + real_of_int (max 1 mi)) \<noteq> 0" by simp
  then show ?thesis
    unfolding score_month_agg_fl_def score_month_agg_def Let_def
    by (simp add: avg_capped_fl_exact py_float_def)
qed

lemma score_month_agg_fl_Inr:
  "score_month_agg_fl fl a mi ma t ws = Inr s \<Longrightarrow> s = score_values_fl fl a mi ma t ws"
  unfolding score_month_agg_fl_def score_values_fl_def Let_def
  by (auto split: if_splits)

lemma avg_capped_fl_nonneg:
  assumes "fl_sane fl" "agg_ok a"
  shows "0 \<le> avg_reply_seconds_capped_fl fl a"
proof (cases "replies a \<le> 0")
  case True
  then show ?thesis by (simp add: avg_reply_seconds_capped_fl_def)
next
  case False
  then have "1 \<le> py_float (replies a)" by (simp add: py_float_def)
  moreover have "0 \<le> py_float (sum_gap_capped a)" using assms(2) by (simp add: py_float_def agg_ok_def)
  ultimately have "0 \<le> fl_div fl (py_float (sum_gap_capped a)) (py_float (replies a))"
    using assms(1) by (simp add: fl_sane_def)
  then show ?thesis using False by (simp add: avg_reply_seconds_capped_fl_def)
qed

lemma score_month_agg_fl_values:
  assumes sane: "fl_sane fl" and ok: "agg_ok a"
  shows "score_month_agg_fl fl a mi ma t ws = Inr (score_values_fl fl a mi ma t ws)"
proof -
  have i: "\<not> py_float (interaction a) \<le> - 1"
    using interaction_nonneg[OF ok] by (simp add: py_float_def)
  have "1 \<le> py_float (max 1 mi)" by (simp add: py_float_def)
  then have l: "fl_log1p fl (py_float (max 1 mi)) \<noteq> 0" using sane by (simp add: fl_sane_def)
  have "0 \<le> fl_div fl (avg_reply_seconds_capped_fl fl a) (max 1 t)"
    using sane avg_capped_fl_nonneg[OF sane ok] by (simp add: fl_sane_def)
  then have d: "fl_add fl 1 (fl_div fl (avg_reply_seconds_capped_fl fl a) (max 1 t)) \<noteq> 0"
    using sane by (simp add: fl_sane_def)
  show ?thesis
    unfolding score_month_agg_fl_def score_values_fl_def Let_def using i l d by simp
qed

lemma foldl_max_Max:
  fixes x :: "'a::linorder"
  shows "foldl max x xs = Max (set (x # xs))"
proof (induction xs arbitrary: x)
  case Nil
  show ?case by simp
next
  case (Cons y ys)
  have "foldl max x (y # ys) = Max (set (max x y # ys))"
    using Cons.IH[of "max x y"] by simp
  also have "\<dots> = Max (set (x # y # ys))"
  proof (cases "ys = []")
    case True
    then show ?thesis by simp
  next
    case False
    then show ?thesis by (simp add: max.assoc)
  qed
  finally show ?case .
qed

lemma score_all_Inr:
  "score_all fl mi ma aggs = Inr scored \<Longrightarrow>
   scored = map (\<lambda>a. (tie_key_of fl a (score_values_fl fl a mi ma tau_seconds (weights_fl fl)), a,
                      score_values_fl fl a mi ma tau_seconds (weights_fl fl))) aggs"
proof (induction aggs arbitrary: scored)
  case Nil
  then show ?case by simp
next
  case (Cons a aggs)
  then show ?case by (auto split: sum.splits dest: score_month_agg_fl_Inr)
qed

lemma score_all_values:
  assumes "fl_sane fl" "\<forall>a \<in> set aggs. agg_ok a"
  shows "score_all fl mi ma aggs =
     Inr (map (\<lambda>a. (tie_key_of fl a (score_values_fl fl a mi ma tau_seconds (weights_fl fl)), a,
                     score_values_fl fl a mi ma tau_seconds (weights_fl fl))) aggs)"
  using assms(2) by (induction aggs) (simp_all add: score_month_agg_fl_values[OF assms(1)])

lemma eligible_set_Max:
  assumes "filter is_eligible aggs = e # es"
  shows "foldl max (interaction e) (map interaction es) = Max (interaction ` set (eligible_of aggs))"
    and "foldl max (active_days_count e) (map active_days_count es)
           = Max (active_days_count ` set (eligible_of aggs))"
  using assms by (simp_all add: foldl_max_Max eligible_of_def)

lemma month_scored_eq:
  assumes "filter is_eligible aggs = e # es"
  shows "map (\<lambda>a. (tie_key_of fl a (score_values_fl fl a
                 (Max (interaction ` set (eligible_of aggs)))
                 (Max (active_days_count ` set (eligible_of aggs))) tau_seconds (weights_fl fl)), a,
               score_values_fl fl a (Max (interaction ` set (eligible_of aggs)))
                 (Max (active_days_count ` set (eligible_of aggs))) tau_seconds (weights_fl fl)))
           (e # es) = month_scored fl aggs"
  unfolding month_scored_def month_key_def month_scores_def eligible_of_def assms by simp

text \<open>When the selector of a month returns, it returns the first record by the key.\<close>

lemma select_month_Inr:
  assumes "select_month fl aggs = Inr p"
  shows "p = month_winner fl aggs"
proof (cases "filter is_eligible aggs")
  case Nil
  then show ?thesis using assms by (simp add: select_month_def month_winner_def eligible_of_def)
next
  case (Cons e es)
  let ?mi = "Max (interaction ` set (eligible_of aggs))"
  let ?ma = "Max (active_days_count ` set (eligible_of aggs))"
  have sel: "select_month fl aggs =
      (case score_all fl ?mi ?ma (e # es) of
         Inl err \<Rightarrow> Inl err
       | Inr scored \<Rightarrow>
           (case sort_key fst scored of
              [] \<Rightarrow> Inl IndexError
            | (_, winner_agg, winner_score) # _ \<Rightarrow> Inr (Some (winner_agg, winner_score))))"
    unfolding select_month_def Cons Let_def list.case eligible_set_Max[OF Cons] ..
  obtain scored where sc: "score_all fl ?mi ?ma (e # es) = Inr scored"
    using assms unfolding sel by (cases "score_all fl ?mi ?ma (e # es)") simp_all
  have scored: "scored = month_scored fl aggs"
    using score_all_Inr[OF sc] unfolding month_scored_eq[OF Cons] .
  obtain k w s rest where srt: "sort_key fst (month_scored fl aggs) = (k, w, s) # rest"
    using assms unfolding sel sc scored
    by (cases "sort_key fst (month_scored fl aggs)") auto
  have "p = Some (w, s)" using assms unfolding sel sc scored by (simp add: srt)
  moreover have "month_winner fl aggs = Some (w, s)"
    by (simp add: month_winner_def eligible_of_def Cons srt)
  ultimately show ?thesis by simp
qed

lemma select_month_winner:
  assumes sane: "fl_sane fl" and ok: "\<forall>a \<in> set aggs. agg_ok a"
  shows "select_month fl aggs = Inr (month_winner fl aggs)"
proof (cases "filter is_eligible aggs")
  case Nil
  then show ?thesis by (simp add: select_month_def month_winner_def eligible_of_def)
next
  case (Cons e es)
  have ok': "\<forall>a \<in> set (e # es). agg_ok a"
    using ok Cons by (metis filter_is_subset subsetD)
  have scored: "score_all fl (Max (interaction ` set (eligible_of aggs)))
      (Max (active_days_count ` set (eligible_of aggs))) (e # es) = Inr (month_scored fl aggs)"
    unfolding score_all_values[OF sane ok'] month_scored_eq[OF Cons] ..
  have ne: "sort_key fst (month_scored fl aggs) \<noteq> []"
    by (simp add: month_scored_def eligible_of_def Cons)
  then obtain k w sc rest where srt: "sort_key fst (month_scored fl aggs) = (k, w, sc) # rest"
    by (cases "sort_key fst (month_scored fl aggs)") auto
  have "select_month fl aggs = Inr (Some (w, sc))"
    unfolding select_month_def Cons Let_def list.case eligible_set_Max[OF Cons] scored
    by (simp add: srt)
  moreover have "month_winner fl aggs = Some (w, sc)"
    by (simp add: month_winner_def eligible_of_def Cons srt)
  ultimately show ?thesis by simp
qed

lemma hd_sort_key_least:
  assumes "xs \<noteq> []"
  shows "hd (sort_key f xs) \<in> set xs" and "\<forall>x \<in> set xs. f (hd (sort_key f xs)) \<le> f x"
proof -
  obtain y ys where ys: "sort_key f xs = y # ys"
    using assms by (cases "sort_key f xs") (auto dest: arg_cong[where f = length])
  have "y \<in> set (sort_key f xs)" unfolding ys by simp
  then have "y \<in> set xs" by (simp only: set_sort)
  then show "hd (sort_key f xs) \<in> set xs" by (simp add: ys)
  have "sorted (map f (sort_key f xs))" by (rule sorted_sort_key)
  then have "\<forall>x \<in> set (sort_key f xs). f y \<le> f x" unfolding ys by auto
  then have "\<forall>x \<in> set xs. f y \<le> f x" by (simp only: set_sort)
  then show "\<forall>x \<in> set xs. f (hd (sort_key f xs)) \<le> f x" by (simp add: ys)
qed

lemma tie_key_final:
  "tie_key_of fl w sw \<le> tie_key_of fl a sa \<Longrightarrow> sc_final sa \<le> sc_final sw"
  by (auto simp: tie_key_of_def less_eq_prod_def)

lemma tie_key_username:
  "tie_key_of fl w sw = tie_key_of fl a sa \<Longrightarrow> username w = username a"
  by (simp add: tie_key_of_def)

lemma month_winner_props:
  assumes ne: "eligible_of aggs \<noteq> []"
  shows "\<exists>w. month_winner fl aggs = Some (w, month_scores fl aggs w)
     \<and> w \<in> set (eligible_of aggs)
     \<and> (month_key fl aggs w, w, month_scores fl aggs w) = hd (sort_key fst (month_scored fl aggs))
     \<and> (\<forall>a \<in> set (eligible_of aggs). month_key fl aggs w \<le> month_key fl aggs a)"
proof -
  have ne': "month_scored fl aggs \<noteq> []" using ne by (simp add: month_scored_def)
  let ?h = "hd (sort_key fst (month_scored fl aggs))"
  have "?h \<in> set (month_scored fl aggs)" by (rule hd_sort_key_least(1)[OF ne'])
  then obtain w where w: "w \<in> set (eligible_of aggs)"
    and h: "?h = (month_key fl aggs w, w, month_scores fl aggs w)"
    by (auto simp: month_scored_def)
  have least: "\<forall>x \<in> set (month_scored fl aggs). fst ?h \<le> fst x"
    by (rule hd_sort_key_least(2)[OF ne'])
  have "\<forall>a \<in> set (eligible_of aggs). month_key fl aggs w \<le> month_key fl aggs a"
  proof
    fix a assume "a \<in> set (eligible_of aggs)"
    then have "(month_key fl aggs a, a, month_scores fl aggs a) \<in> set (month_scored fl aggs)"
      by (simp add: month_scored_def)
    from bspec[OF least this] show "month_key fl aggs w \<le> month_key fl aggs a" by (simp add: h)
  qed
  moreover have "month_winner fl aggs = Some (w, month_scores fl aggs w)"
    using ne by (simp add: month_winner_def h)
  ultimately show ?thesis using w h by auto
qed

lemma month_key_inj:
  assumes "distinct (map username (eligible_of aggs))"
  shows "inj_on (month_key fl aggs) (set (eligible_of aggs))"
proof (rule inj_onI)
  fix a b assume a: "a \<in> set (eligible_of aggs)" and b: "b \<in> set (eligible_of aggs)"
    and k: "month_key fl aggs a = month_key fl aggs b"
  have "username a = username b" using k unfolding month_key_def by (rule tie_key_username)
  moreover have "inj_on username (set (eligible_of aggs))"
    using assms by (simp add: distinct_map)
  ultimately show "a = b" using a b by (auto dest: inj_onD)
qed

lemma month_scored_inj:
  assumes "distinct (map username (eligible_of aggs))"
  shows "inj_on fst (set (month_scored fl aggs))"
proof (rule inj_onI)
  fix x y assume x: "x \<in> set (month_scored fl aggs)" and y: "y \<in> set (month_scored fl aggs)"
    and k: "fst x = fst y"
  obtain a where a: "a \<in> set (eligible_of aggs)" "x = (month_key fl aggs a, a, month_scores fl aggs a)"
    using x by (auto simp: month_scored_def)
  obtain b where b: "b \<in> set (eligible_of aggs)" "y = (month_key fl aggs b, b, month_scores fl aggs b)"
    using y by (auto simp: month_scored_def)
  have "month_key fl aggs a = month_key fl aggs b" using k a(2) b(2) by simp
  then have "a = b" using month_key_inj[OF assms] a(1) b(1) by (auto dest: inj_onD)
  then show "x = y" using a(2) b(2) by simp
qed

lemma month_notions_perm:
  assumes "mset aggs' = mset aggs"
  shows "mset (eligible_of aggs') = mset (eligible_of aggs)"
    and "month_scores fl aggs' = month_scores fl aggs"
    and "month_key fl aggs' = month_key fl aggs"
    and "mset (month_scored fl aggs') = mset (month_scored fl aggs)"
proof -
  show e: "mset (eligible_of aggs') = mset (eligible_of aggs)"
    unfolding eligible_of_def using assms by (metis mset_filter)
  then have s: "set (eligible_of aggs') = set (eligible_of aggs)" by (rule mset_eq_setD)
  show sc: "month_scores fl aggs' = month_scores fl aggs"
    by (rule ext) (simp add: month_scores_def s)
  show k: "month_key fl aggs' = month_key fl aggs"
    by (rule ext) (simp add: month_key_def sc)
  show "mset (month_scored fl aggs') = mset (month_scored fl aggs)"
    unfolding month_scored_def sc k using e by (metis mset_map)
qed

lemma month_winner_perm:
  assumes perm: "mset aggs' = mset aggs"
    and d: "distinct (map username (eligible_of aggs))"
  shows "month_winner fl aggs' = month_winner fl aggs"
proof -
  note p = month_notions_perm[OF perm]
  have inj: "inj_on fst (set (month_scored fl aggs))" by (rule month_scored_inj[OF d])
  have "sort_key fst (month_scored fl aggs) = sort_key fst (month_scored fl aggs')"
    by (rule sort_key_inj_key_eq[OF _ inj]) (simp_all add: p(4))
  moreover have "eligible_of aggs' = [] \<longleftrightarrow> eligible_of aggs = []"
    using p(1) by (metis mset_zero_iff)
  ultimately show ?thesis by (simp add: month_winner_def)
qed

lemma month_key_strict:
  assumes d: "distinct (map username (eligible_of aggs))"
    and w: "w \<in> set (eligible_of aggs)" and a: "a \<in> set (eligible_of aggs)" and ne: "a \<noteq> w"
    and le: "month_key fl aggs w \<le> month_key fl aggs a"
  shows "month_key fl aggs w < month_key fl aggs a"
proof -
  have "month_key fl aggs w \<noteq> month_key fl aggs a"
    using month_key_inj[OF d] w a ne by (auto dest: inj_onD)
  then show ?thesis using le by (simp add: less_le)
qed

lemma select_months_map_of:
  assumes "select_months fl pm ms = Inr raw" and "distinct ms"
  shows "set (map fst raw) \<subseteq> set ms
     \<and> (\<forall>m. map_of raw m = (if m \<in> set ms then month_winner fl (pm m) else None))"
  using assms
proof (induction ms arbitrary: raw)
  case Nil
  then show ?case by simp
next
  case (Cons k ms)
  have k: "k \<notin> set ms" and d: "distinct ms" using Cons.prems(2) by simp_all
  obtain p where sel: "select_month fl (pm k) = Inr p"
    using Cons.prems(1) by (cases "select_month fl (pm k)") simp_all
  have p: "p = month_winner fl (pm k)" by (rule select_month_Inr[OF sel])
  show ?case
  proof (cases p)
    case None
    then have "select_months fl pm ms = Inr raw" using Cons.prems(1) sel by simp
    from Cons.IH[OF this d] show ?thesis using None p k by (auto simp: subset_insertI2)
  next
    case (Some pack)
    obtain rest where rest: "select_months fl pm ms = Inr rest" and raw: "raw = (k, pack) # rest"
      using Cons.prems(1) sel Some by (cases "select_months fl pm ms") auto
    from Cons.IH[OF rest d] show ?thesis using Some p k raw by (auto simp: subset_insertI2)
  qed
qed

lemma select_months_returns:
  assumes sane: "fl_sane fl" and ok: "\<forall>m. \<forall>a \<in> set (pm m). agg_ok a"
  shows "\<exists>raw. select_months fl pm ms = Inr raw"
proof (induction ms)
  case Nil
  show ?case by simp
next
  case (Cons k ms)
  then obtain rest where rest: "select_months fl pm ms = Inr rest" by blast
  have sel: "select_month fl (pm k) = Inr (month_winner fl (pm k))"
    by (rule select_month_winner[OF sane]) (use ok in simp)
  show ?case
    by (cases "month_winner fl (pm k)") (simp_all add: sel rest)
qed

lemma months_1_12: "distinct [1..12::int]" "set [1..12::int] = {1..12}"
  by simp_all

lemma pool_ok_agg: "pool_ok pm \<Longrightarrow> \<forall>m. \<forall>a \<in> set (pm m). agg_ok a"
  by (simp add: pool_ok_def)

lemma eligible_agg_ok: "pool_ok pm \<Longrightarrow> a \<in> set (eligible_of (pm m)) \<Longrightarrow> agg_ok a"
  by (auto simp: pool_ok_def eligible_of_def)

lemma select_month_eligible:
  assumes "select_month fl aggs = Inr (Some (w, sc))"
  shows "w \<in> set (eligible_of aggs)"
proof -
  have w: "month_winner fl aggs = Some (w, sc)" using select_month_Inr[OF assms] by simp
  then have ne: "eligible_of aggs \<noteq> []" by (auto simp: month_winner_def split: if_splits)
  from month_winner_props[OF ne, of fl] w show ?thesis by auto
qed

text \<open>The key of a record, component by component, and the order of two keys.\<close>

lemma month_key_tuple:
  "month_key fl aggs a =
     (- sc_final (month_scores fl aggs a), - real_of_int (interaction a),
      avg_reply_seconds_capped_fl fl a, - real_of_int (active_days_count a), username a)"
  by (simp add: month_key_def tie_key_of_def py_float_def)

lemma key_le_iff:
  fixes f f' g g' :: real and i i' d d' :: int and u u' :: string
  shows "(- f, - real_of_int i, g, - real_of_int d, u) \<le> (- f', - real_of_int i', g', - real_of_int d', u')
     \<longleftrightarrow> f' < f \<or> f' = f \<and> (i' < i \<or> i' = i \<and> (g < g' \<or> g = g' \<and> (d' < d \<or> d' = d \<and> u \<le> u')))"
  by (auto simp: less_eq_prod_def)

lemma month_winner_first:
  assumes ok: "pool_ok pm" and sane: "fl_sane fl" and m: "1 \<le> m" "m \<le> 12"
    and ne: "eligible_of (pm m) \<noteq> []"
  shows "\<exists>w raw. select_month fl (pm m) = Inr (Some (w, month_scores fl (pm m) w))
      \<and> select_months fl pm [1..12] = Inr raw \<and> map_of raw m = Some (w, month_scores fl (pm m) w)
      \<and> w \<in> set (eligible_of (pm m))
      \<and> (month_key fl (pm m) w, w, month_scores fl (pm m) w)
          = hd (sort_key fst (month_scored fl (pm m)))
      \<and> (\<forall>a \<in> set (eligible_of (pm m)).
            score_month_agg_fl fl a (Max (interaction ` set (eligible_of (pm m))))
                (Max (active_days_count ` set (eligible_of (pm m)))) tau_seconds (weights_fl fl)
              = Inr (month_scores fl (pm m) a)
            \<and> month_key fl (pm m) w \<le> month_key fl (pm m) a
            \<and> sc_final (month_scores fl (pm m) a) \<le> sc_final (month_scores fl (pm m) w))
      \<and> (distinct (map username (eligible_of (pm m))) \<longrightarrow>
            (\<forall>a \<in> set (eligible_of (pm m)). a \<noteq> w \<longrightarrow> month_key fl (pm m) w < month_key fl (pm m) a)
            \<and> (\<forall>aggs. mset aggs = mset (pm m) \<longrightarrow> select_month fl aggs = select_month fl (pm m)))"
proof -
  note aok = pool_ok_agg[OF ok]
  obtain w where w: "month_winner fl (pm m) = Some (w, month_scores fl (pm m) w)"
    "w \<in> set (eligible_of (pm m))"
    "(month_key fl (pm m) w, w, month_scores fl (pm m) w) = hd (sort_key fst (month_scored fl (pm m)))"
    "\<forall>a \<in> set (eligible_of (pm m)). month_key fl (pm m) w \<le> month_key fl (pm m) a"
    using month_winner_props[OF ne, of fl] by blast
  have sel: "select_month fl (pm m) = Inr (Some (w, month_scores fl (pm m) w))"
    using select_month_winner[OF sane, of "pm m"] aok w(1) by simp
  obtain raw where raw: "select_months fl pm [1..12] = Inr raw"
    using select_months_returns[OF sane aok] by blast
  have rawm: "map_of raw m = Some (w, month_scores fl (pm m) w)"
    using select_months_map_of[OF raw months_1_12(1)] m w(1) by simp
  have each: "\<forall>a \<in> set (eligible_of (pm m)).
            score_month_agg_fl fl a (Max (interaction ` set (eligible_of (pm m))))
                (Max (active_days_count ` set (eligible_of (pm m)))) tau_seconds (weights_fl fl)
              = Inr (month_scores fl (pm m) a)
            \<and> month_key fl (pm m) w \<le> month_key fl (pm m) a
            \<and> sc_final (month_scores fl (pm m) a) \<le> sc_final (month_scores fl (pm m) w)"
  proof
    fix a assume a: "a \<in> set (eligible_of (pm m))"
    have le: "month_key fl (pm m) w \<le> month_key fl (pm m) a" using w(4) a by simp
    have "score_month_agg_fl fl a (Max (interaction ` set (eligible_of (pm m))))
                (Max (active_days_count ` set (eligible_of (pm m)))) tau_seconds (weights_fl fl)
              = Inr (month_scores fl (pm m) a)"
      unfolding month_scores_def
      by (rule score_month_agg_fl_values[OF sane eligible_agg_ok[OF ok a]])
    moreover have "sc_final (month_scores fl (pm m) a) \<le> sc_final (month_scores fl (pm m) w)"
      using le unfolding month_key_def by (rule tie_key_final)
    ultimately show "score_month_agg_fl fl a (Max (interaction ` set (eligible_of (pm m))))
                (Max (active_days_count ` set (eligible_of (pm m)))) tau_seconds (weights_fl fl)
              = Inr (month_scores fl (pm m) a)
            \<and> month_key fl (pm m) w \<le> month_key fl (pm m) a
            \<and> sc_final (month_scores fl (pm m) a) \<le> sc_final (month_scores fl (pm m) w)"
      using le by simp
  qed
  have uniq: "distinct (map username (eligible_of (pm m))) \<longrightarrow>
            (\<forall>a \<in> set (eligible_of (pm m)). a \<noteq> w \<longrightarrow> month_key fl (pm m) w < month_key fl (pm m) a)
            \<and> (\<forall>aggs. mset aggs = mset (pm m) \<longrightarrow> select_month fl aggs = select_month fl (pm m))"
  proof (intro conjI ballI allI impI)
    fix a assume d: "distinct (map username (eligible_of (pm m)))"
      and "a \<in> set (eligible_of (pm m))" "a \<noteq> w"
    then show "month_key fl (pm m) w < month_key fl (pm m) a"
      using month_key_strict[OF d w(2)] w(4) by simp
  next
    fix aggs assume d: "distinct (map username (eligible_of (pm m)))"
      and p: "mset aggs = mset (pm m)"
    then have "set aggs = set (pm m)" by (metis mset_eq_setD)
    then have "\<forall>a \<in> set aggs. agg_ok a" using aok by simp
    then have "select_month fl aggs = Inr (month_winner fl aggs)"
      by (rule select_month_winner[OF sane])
    also have "month_winner fl aggs = month_winner fl (pm m)" by (rule month_winner_perm[OF p d])
    finally show "select_month fl aggs = select_month fl (pm m)" using sel w(1) by simp
  qed
  show ?thesis
    using sel raw rawm w(2,3) each uniq
    by (intro exI[of _ w] exI[of _ raw] conjI) assumption+
qed

text \<open>
  Claim C1. For a month from 1 to 12 whose pool has an eligible record, the selector
  returns one winner: the first of the eligible records sorted in ascending order of the
  tuple \<open>(- finalScore, - interaction, avgReplyGapCapped, - activeDaysCount, conversation)\<close>,
  each scored with the month maxima. The tuple of the winner is the least in the
  lexicographic order, which the statement also spells out component by component, and
  its final score is the greatest among the eligible records. When the conversations of
  the eligible records differ, every other tuple is strictly greater and the winner does
  not depend on the order of the pool. The scores are the doubles that the machine
  computes, for any operations on doubles with which the scorer does not raise.
\<close>

theorem month_winner_first_by_key:
  assumes ok: "pool_ok pm" and sane: "fl_sane fl" and m: "1 \<le> m" "m \<le> 12"
    and ne: "eligible_of (pm m) \<noteq> []"
  shows "\<exists>w raw. select_month fl (pm m) = Inr (Some (w, month_scores fl (pm m) w))
      \<and> select_months fl pm [1..12] = Inr raw \<and> map_of raw m = Some (w, month_scores fl (pm m) w)
      \<and> w \<in> set (eligible_of (pm m))
      \<and> ((- sc_final (month_scores fl (pm m) w), - real_of_int (interaction w),
           avg_reply_seconds_capped_fl fl w, - real_of_int (active_days_count w), username w),
          w, month_scores fl (pm m) w)
          = hd (sort_key fst
               (map (\<lambda>a. ((- sc_final (month_scores fl (pm m) a), - real_of_int (interaction a),
                            avg_reply_seconds_capped_fl fl a, - real_of_int (active_days_count a),
                            username a),
                           a, month_scores fl (pm m) a))
                    (eligible_of (pm m))))
      \<and> (\<forall>a \<in> set (eligible_of (pm m)).
            score_month_agg_fl fl a (Max (interaction ` set (eligible_of (pm m))))
                (Max (active_days_count ` set (eligible_of (pm m)))) tau_seconds (weights_fl fl)
              = Inr (month_scores fl (pm m) a)
            \<and> (- sc_final (month_scores fl (pm m) w), - real_of_int (interaction w),
                avg_reply_seconds_capped_fl fl w, - real_of_int (active_days_count w), username w)
              \<le> (- sc_final (month_scores fl (pm m) a), - real_of_int (interaction a),
                  avg_reply_seconds_capped_fl fl a, - real_of_int (active_days_count a), username a)
            \<and> (sc_final (month_scores fl (pm m) a) < sc_final (month_scores fl (pm m) w)
               \<or> sc_final (month_scores fl (pm m) a) = sc_final (month_scores fl (pm m) w)
                 \<and> (interaction a < interaction w
                    \<or> interaction a = interaction w
                      \<and> (avg_reply_seconds_capped_fl fl w < avg_reply_seconds_capped_fl fl a
                         \<or> avg_reply_seconds_capped_fl fl w = avg_reply_seconds_capped_fl fl a
                           \<and> (active_days_count a < active_days_count w
                              \<or> active_days_count a = active_days_count w
                                \<and> username w \<le> username a))))
            \<and> sc_final (month_scores fl (pm m) a) \<le> sc_final (month_scores fl (pm m) w))
      \<and> (distinct (map username (eligible_of (pm m))) \<longrightarrow>
            (\<forall>a \<in> set (eligible_of (pm m)). a \<noteq> w \<longrightarrow>
               (- sc_final (month_scores fl (pm m) w), - real_of_int (interaction w),
                avg_reply_seconds_capped_fl fl w, - real_of_int (active_days_count w), username w)
               < (- sc_final (month_scores fl (pm m) a), - real_of_int (interaction a),
                  avg_reply_seconds_capped_fl fl a, - real_of_int (active_days_count a), username a))
            \<and> (\<forall>aggs. mset aggs = mset (pm m) \<longrightarrow> select_month fl aggs = select_month fl (pm m)))"
proof -
  obtain w raw where sel: "select_month fl (pm m) = Inr (Some (w, month_scores fl (pm m) w))"
    and raw: "select_months fl pm [1..12] = Inr raw"
    and rawm: "map_of raw m = Some (w, month_scores fl (pm m) w)"
    and w: "w \<in> set (eligible_of (pm m))"
    and first: "(month_key fl (pm m) w, w, month_scores fl (pm m) w)
          = hd (sort_key fst (month_scored fl (pm m)))"
    and each: "\<forall>a \<in> set (eligible_of (pm m)).
            score_month_agg_fl fl a (Max (interaction ` set (eligible_of (pm m))))
                (Max (active_days_count ` set (eligible_of (pm m)))) tau_seconds (weights_fl fl)
              = Inr (month_scores fl (pm m) a)
            \<and> month_key fl (pm m) w \<le> month_key fl (pm m) a
            \<and> sc_final (month_scores fl (pm m) a) \<le> sc_final (month_scores fl (pm m) w)"
    and uniq: "distinct (map username (eligible_of (pm m))) \<longrightarrow>
            (\<forall>a \<in> set (eligible_of (pm m)). a \<noteq> w \<longrightarrow> month_key fl (pm m) w < month_key fl (pm m) a)
            \<and> (\<forall>aggs. mset aggs = mset (pm m) \<longrightarrow> select_month fl aggs = select_month fl (pm m))"
    using month_winner_first[OF ok sane m ne] by (elim exE conjE)
  note first' = first[unfolded month_scored_def month_key_tuple]
  have each': "\<forall>a \<in> set (eligible_of (pm m)).
            score_month_agg_fl fl a (Max (interaction ` set (eligible_of (pm m))))
                (Max (active_days_count ` set (eligible_of (pm m)))) tau_seconds (weights_fl fl)
              = Inr (month_scores fl (pm m) a)
            \<and> (- sc_final (month_scores fl (pm m) w), - real_of_int (interaction w),
                avg_reply_seconds_capped_fl fl w, - real_of_int (active_days_count w), username w)
              \<le> (- sc_final (month_scores fl (pm m) a), - real_of_int (interaction a),
                  avg_reply_seconds_capped_fl fl a, - real_of_int (active_days_count a), username a)
            \<and> (sc_final (month_scores fl (pm m) a) < sc_final (month_scores fl (pm m) w)
               \<or> sc_final (month_scores fl (pm m) a) = sc_final (month_scores fl (pm m) w)
                 \<and> (interaction a < interaction w
                    \<or> interaction a = interaction w
                      \<and> (avg_reply_seconds_capped_fl fl w < avg_reply_seconds_capped_fl fl a
                         \<or> avg_reply_seconds_capped_fl fl w = avg_reply_seconds_capped_fl fl a
                           \<and> (active_days_count a < active_days_count w
                              \<or> active_days_count a = active_days_count w
                                \<and> username w \<le> username a))))
            \<and> sc_final (month_scores fl (pm m) a) \<le> sc_final (month_scores fl (pm m) w)"
  proof
    fix a assume a: "a \<in> set (eligible_of (pm m))"
    note e = each[rule_format, OF a]
    have le: "(- sc_final (month_scores fl (pm m) w), - real_of_int (interaction w),
                avg_reply_seconds_capped_fl fl w, - real_of_int (active_days_count w), username w)
              \<le> (- sc_final (month_scores fl (pm m) a), - real_of_int (interaction a),
                  avg_reply_seconds_capped_fl fl a, - real_of_int (active_days_count a), username a)"
      using e unfolding month_key_tuple by (elim conjE)
    note lex = le[unfolded key_le_iff]
    show "score_month_agg_fl fl a (Max (interaction ` set (eligible_of (pm m))))
                (Max (active_days_count ` set (eligible_of (pm m)))) tau_seconds (weights_fl fl)
              = Inr (month_scores fl (pm m) a)
            \<and> (- sc_final (month_scores fl (pm m) w), - real_of_int (interaction w),
                avg_reply_seconds_capped_fl fl w, - real_of_int (active_days_count w), username w)
              \<le> (- sc_final (month_scores fl (pm m) a), - real_of_int (interaction a),
                  avg_reply_seconds_capped_fl fl a, - real_of_int (active_days_count a), username a)
            \<and> (sc_final (month_scores fl (pm m) a) < sc_final (month_scores fl (pm m) w)
               \<or> sc_final (month_scores fl (pm m) a) = sc_final (month_scores fl (pm m) w)
                 \<and> (interaction a < interaction w
                    \<or> interaction a = interaction w
                      \<and> (avg_reply_seconds_capped_fl fl w < avg_reply_seconds_capped_fl fl a
                         \<or> avg_reply_seconds_capped_fl fl w = avg_reply_seconds_capped_fl fl a
                           \<and> (active_days_count a < active_days_count w
                              \<or> active_days_count a = active_days_count w
                                \<and> username w \<le> username a))))
            \<and> sc_final (month_scores fl (pm m) a) \<le> sc_final (month_scores fl (pm m) w)"
      using conjunct1[OF e] le lex conjunct2[OF conjunct2[OF e]]
      by (intro conjI) assumption+
  qed
  note uniq' = uniq[unfolded month_key_tuple]
  show ?thesis
    using sel raw rawm w first' each' uniq'
    by (intro exI[of _ w] exI[of _ raw] conjI) assumption+
qed

lemma pool_tie_ok: "pool_ok pool_tie"
  by (simp add: pool_ok_def pool_tie_def agg_example_def agg_twin_def agg_ok_def
      strip_def is_space_def)

lemma pool_tie_facts:
  "eligible_of (pool_tie 1) = [agg_example, agg_twin]"
  "mset [agg_twin, agg_example] = mset (pool_tie 1)"
  "distinct (map username (eligible_of (pool_tie 1)))"
  "username agg_twin < username agg_example"
  "\<not> username agg_example \<le> username agg_twin"
  by code_simp+

lemma twin_stats:
  "interaction agg_twin = interaction agg_example"
  "active_days_count agg_twin = active_days_count agg_example"
  "avg_reply_seconds_capped_fl fl agg_twin = avg_reply_seconds_capped_fl fl agg_example"
  "month_scores fl aggs agg_twin = month_scores fl aggs agg_example"
  by (simp_all add: agg_twin_def agg_example_def interaction_def active_days_count_def
      avg_reply_seconds_capped_fl_def month_scores_def score_values_fl_def time_bucket_count_def)

theorem month_winner_first_by_key_witness:
  "pool_ok pool_tie \<and> fl_sane exact_ops \<and> (1::int) \<le> 1 \<and> (1::int) \<le> 12
   \<and> eligible_of (pool_tie 1) = [agg_example, agg_twin]
   \<and> distinct (map username (eligible_of (pool_tie 1)))
   \<and> sc_final (month_scores exact_ops (pool_tie 1) agg_twin)
       = sc_final (month_scores exact_ops (pool_tie 1) agg_example)
   \<and> username agg_twin < username agg_example
   \<and> select_month exact_ops (pool_tie 1)
       = Inr (Some (agg_twin, month_scores exact_ops (pool_tie 1) agg_twin))
   \<and> mset [agg_twin, agg_example] = mset (pool_tie 1)
   \<and> select_month exact_ops [agg_twin, agg_example] = select_month exact_ops (pool_tie 1)"
proof -
  let ?S = "month_scores exact_ops (pool_tie 1)"
  have ne: "eligible_of (pool_tie 1) \<noteq> []" by (simp add: pool_tie_facts(1))
  have one: "(1::int) \<le> 1" and twelve: "(1::int) \<le> 12" by simp_all
  from month_winner_first_by_key[OF pool_tie_ok fl_sane_exact one twelve ne]
  obtain w where sel: "select_month exact_ops (pool_tie 1) = Inr (Some (w, ?S w))"
    and w: "w \<in> set (eligible_of (pool_tie 1))"
    and each: "\<forall>a \<in> set (eligible_of (pool_tie 1)).
            score_month_agg_fl exact_ops a (Max (interaction ` set (eligible_of (pool_tie 1))))
                (Max (active_days_count ` set (eligible_of (pool_tie 1)))) tau_seconds
                (weights_fl exact_ops)
              = Inr (?S a)
            \<and> (- sc_final (?S w), - real_of_int (interaction w),
                avg_reply_seconds_capped_fl exact_ops w, - real_of_int (active_days_count w),
                username w)
              \<le> (- sc_final (?S a), - real_of_int (interaction a),
                  avg_reply_seconds_capped_fl exact_ops a, - real_of_int (active_days_count a),
                  username a)
            \<and> (sc_final (?S a) < sc_final (?S w)
               \<or> sc_final (?S a) = sc_final (?S w)
                 \<and> (interaction a < interaction w
                    \<or> interaction a = interaction w
                      \<and> (avg_reply_seconds_capped_fl exact_ops w < avg_reply_seconds_capped_fl exact_ops a
                         \<or> avg_reply_seconds_capped_fl exact_ops w = avg_reply_seconds_capped_fl exact_ops a
                           \<and> (active_days_count a < active_days_count w
                              \<or> active_days_count a = active_days_count w
                                \<and> username w \<le> username a))))
            \<and> sc_final (?S a) \<le> sc_final (?S w)"
    and uniq: "distinct (map username (eligible_of (pool_tie 1))) \<longrightarrow>
            (\<forall>a \<in> set (eligible_of (pool_tie 1)). a \<noteq> w \<longrightarrow>
               (- sc_final (?S w), - real_of_int (interaction w),
                avg_reply_seconds_capped_fl exact_ops w, - real_of_int (active_days_count w),
                username w)
               < (- sc_final (?S a), - real_of_int (interaction a),
                  avg_reply_seconds_capped_fl exact_ops a, - real_of_int (active_days_count a),
                  username a))
            \<and> (\<forall>aggs. mset aggs = mset (pool_tie 1) \<longrightarrow>
                  select_month exact_ops aggs = select_month exact_ops (pool_tie 1))"
    by (elim exE conjE)
  have twin: "agg_twin \<in> set (eligible_of (pool_tie 1))" by (simp add: pool_tie_facts(1))
  have "w \<noteq> agg_example"
  proof
    assume e: "w = agg_example"
    from each[rule_format, OF twin, THEN conjunct2, THEN conjunct2, THEN conjunct1]
    have "username agg_example \<le> username agg_twin"
      unfolding e by (simp add: twin_stats)
    then show False using pool_tie_facts(5) by simp
  qed
  then have wt: "w = agg_twin" using w by (simp add: pool_tie_facts(1))
  have sel': "select_month exact_ops (pool_tie 1) = Inr (Some (agg_twin, ?S agg_twin))"
    using sel unfolding wt .
  have perm: "\<forall>aggs. mset aggs = mset (pool_tie 1) \<longrightarrow>
                  select_month exact_ops aggs = select_month exact_ops (pool_tie 1)"
    using uniq pool_tie_facts(3) by (elim impE conjE)
  have sw: "select_month exact_ops [agg_twin, agg_example] = select_month exact_ops (pool_tie 1)"
    using perm pool_tie_facts(2) by (elim allE impE)
  have fin: "sc_final (?S agg_twin) = sc_final (?S agg_example)" by (simp add: twin_stats)
  show ?thesis
    using pool_tie_ok fl_sane_exact one twelve pool_tie_facts(1,3) fin pool_tie_facts(4) sel'
      pool_tie_facts(2) sw
    by (intro conjI) assumption+
qed

section \<open>Properties of the result\<close>

lemma pool_ok_empty: "pool_ok (\<lambda>_. [])"
  by (simp add: pool_ok_def)

lemma pool_ok_pass: "pool_ok (per_month_aggs (run_pass c me rows))"
  using conv_inv_pass[of c me rows] by (simp add: conv_inv_def pool_ok_def)

lemma pool_ok_pool_of: "pool_of c n idx = Inr pm \<Longrightarrow> pool_ok pm"
  by (auto simp: pool_of_def Let_def pool_ok_empty pool_ok_pass
      split: index_db.splits sum.splits if_splits)

lemma is_eligible_iff:
  "is_eligible a \<longleftrightarrow> 8 \<le> total a \<and> 3 \<le> interaction a \<and> 1 \<le> replies a \<and> 2 \<le> active_days_count a"
  by (auto simp: is_eligible_def minTotalMessages_def minInteraction_def minReplyCount_def
      minActiveDays_def)

lemma year_range_Inr:
  "year_range_epoch_seconds c yr = Inr b \<Longrightarrow> 1 \<le> yr \<and> yr \<le> 9998"
  by (auto simp: year_range_epoch_seconds_def split: if_splits sum.splits)

lemma year_range_Inl:
  "yr \<le> 0 \<or> 9999 \<le> yr \<Longrightarrow> isl (year_range_epoch_seconds c yr)"
  by (cases "year_range_epoch_seconds c yr") (auto dest: year_range_Inr)

text \<open>What a result of the function is made of.\<close>

lemma compute_Inr:
  assumes "compute_monthly_best_friends_wall_stats c n yr idx = Inr res"
  shows "\<exists>pm raw. pool_of c n idx = Inr pm \<and> select_months (fl_ops c) pm [1..12] = Inr raw
     \<and> res = compose c n yr raw
     \<and> (\<forall>m. map_of raw m = (if 1 \<le> m \<and> m \<le> 12 then month_winner (fl_ops c) (pm m) else None))"
proof -
  obtain b where "year_range_epoch_seconds c yr = Inr b"
    using assms unfolding compute_monthly_best_friends_wall_stats_def
    by (cases "year_range_epoch_seconds c yr") simp_all
  note y = this
  obtain pm where pm: "pool_of c n idx = Inr pm"
    using assms unfolding compute_monthly_best_friends_wall_stats_def y
    by (cases "pool_of c n idx") simp_all
  obtain raw where raw: "select_months (fl_ops c) pm [1..12] = Inr raw"
    using assms unfolding compute_monthly_best_friends_wall_stats_def y pm
    by (cases "select_months (fl_ops c) pm [1..12]") simp_all
  have res: "res = compose c n yr raw"
    using assms by (simp add: compute_monthly_best_friends_wall_stats_def y pm raw)
  have "\<forall>m. map_of raw m = (if 1 \<le> m \<and> m \<le> 12 then month_winner (fl_ops c) (pm m) else None)"
    using select_months_map_of[OF raw months_1_12(1)] by simp
  then show ?thesis using pm raw res by blast
qed

text \<open>
  The function returns when the bounds of the year are computed, the index is read and
  the scorer does not raise.
\<close>

lemma compute_returns:
  assumes y: "year_range_epoch_seconds c yr = Inr b" and pm: "pool_of c n idx = Inr pm"
    and sane: "fl_sane (fl_ops c)"
  shows "\<exists>res. compute_monthly_best_friends_wall_stats c n yr idx = Inr res"
proof -
  obtain raw where raw: "select_months (fl_ops c) pm [1..12] = Inr raw"
    using select_months_returns[OF sane pool_ok_agg[OF pool_ok_pool_of[OF pm]]] by blast
  show ?thesis by (simp add: compute_monthly_best_friends_wall_stats_def y pm raw)
qed

lemma compute_raises:
  "yr \<le> 0 \<or> 9999 \<le> yr \<Longrightarrow> isl (compute_monthly_best_friends_wall_stats c n yr idx)"
  "isl (compute_monthly_best_friends_wall_stats c n yr (ProbeFails e))"
  "strip n \<noteq> [] \<Longrightarrow> isl (compute_monthly_best_friends_wall_stats c n yr (Table (Inl e)))"
proof -
  show "isl (compute_monthly_best_friends_wall_stats c n yr idx)" if "yr \<le> 0 \<or> 9999 \<le> yr"
    using year_range_Inl[OF that, of c] unfolding compute_monthly_best_friends_wall_stats_def
    by (cases "year_range_epoch_seconds c yr") simp_all
  show "isl (compute_monthly_best_friends_wall_stats c n yr (ProbeFails e))"
    unfolding compute_monthly_best_friends_wall_stats_def
    by (cases "year_range_epoch_seconds c yr") (simp_all add: pool_of_def)
  show "isl (compute_monthly_best_friends_wall_stats c n yr (Table (Inl e)))" if "strip n \<noteq> []"
    unfolding compute_monthly_best_friends_wall_stats_def using that
    by (cases "year_range_epoch_seconds c yr") (simp_all add: pool_of_def)
qed

lemma ws_months_compose:
  "ws_months (compose c n yr raw) = map (month_entry c n raw) [1..12]"
  by (simp add: compose_def Let_def)

lemma nth_months:
  assumes "1 \<le> m" "m \<le> 12"
  shows "[1..12] ! nat (m - 1) = m" and "nat (m - 1) < length [1..12::int]"
  using assms by (simp_all add: nth_upto)

lemma entry_of_compose:
  assumes "1 \<le> m" "m \<le> 12"
  shows "entry_of (compose c n yr raw) m = month_entry c n raw m"
  unfolding entry_of_def ws_months_compose
  using nth_months[OF assms] by (simp del: upto.simps)

lemma month_entry_none:
  "map_of raw m = None \<Longrightarrow> month_entry c n raw m = no_winner_entry m"
  by (simp add: month_entry_def)

lemma no_winner_entry_fields:
  "dict_get (no_winner_entry m) ''winner'' = PyNone"
  "dict_get (no_winner_entry m) ''raw'' = PyNone"
  "dict_get (no_winner_entry m) ''reason'' = PyStr ''insufficient_data''"
  "map_of (no_winner_entry m) ''reason'' = Some (PyStr ''insufficient_data'')"
  "month_of_item (no_winner_entry m) = m"
  "\<not> has_winner (no_winner_entry m)"
  by (simp_all add: no_winner_entry_def dict_get_def month_of_item_def has_winner_def)

lemma month_entry_some:
  assumes "map_of raw m = Some (a, sc)"
  shows "\<exists>w r. dict_get (month_entry c n raw m) ''winner'' = Winner w
        \<and> wi_username w = username a \<and> wi_score w = sc_final sc
        \<and> dict_get (month_entry c n raw m) ''raw'' = Raw r
        \<and> totalMessages r = total a \<and> raw_interaction r = interaction a
        \<and> replyCount r = replies a \<and> activeDays r = active_days_count a"
    and "map_of (month_entry c n raw m) ''reason'' = None"
    and "dict_get (month_entry c n raw m) ''reason'' = PyNone"
    and "month_of_item (month_entry c n raw m) = m"
    and "has_winner (month_entry c n raw m)"
  using assms
  by (simp_all add: month_entry_def Let_def dict_get_def month_of_item_def has_winner_def)

lemma month_of_item_entry [simp]: "month_of_item (month_entry c n raw m) = m"
  by (cases "map_of raw m") (auto simp: month_entry_none no_winner_entry_fields month_entry_some(4))

lemma month_winner_eligible:
  "month_winner fl aggs = Some (a, sc) \<Longrightarrow> a \<in> set aggs \<and> is_eligible a"
proof -
  assume w: "month_winner fl aggs = Some (a, sc)"
  then have ne: "eligible_of aggs \<noteq> []" by (auto simp: month_winner_def split: if_splits)
  from month_winner_props[OF ne, of fl] w have "a \<in> set (eligible_of aggs)" by auto
  then show ?thesis by (simp add: eligible_of_def)
qed

lemma month_winner_none_iff: "month_winner fl aggs = None \<longleftrightarrow> eligible_of aggs = []"
  by (simp add: month_winner_def)

lemma compute_entry:
  assumes res: "compute_monthly_best_friends_wall_stats c n yr idx = Inr res" and pool: "pool_of c n idx = Inr pm"
    and m: "1 \<le> m" "m \<le> 12"
  shows "\<exists>raw. entry_of res m = month_entry c n raw m
      \<and> map_of raw m = month_winner (fl_ops c) (pm m)
      \<and> ws_months res = map (month_entry c n raw) [1..12]"
proof -
  obtain pm' raw where r: "pool_of c n idx = Inr pm'" "res = compose c n yr raw"
    "\<forall>m. map_of raw m = (if 1 \<le> m \<and> m \<le> 12 then month_winner (fl_ops c) (pm' m) else None)"
    using compute_Inr[OF res] by blast
  have eq: "pm' = pm" using r(1) pool by simp
  have "entry_of res m = month_entry c n raw m"
    unfolding r(2) by (rule entry_of_compose[OF m])
  moreover have "map_of raw m = month_winner (fl_ops c) (pm m)" using r(3) m eq by simp
  moreover have "ws_months res = map (month_entry c n raw) [1..12]"
    unfolding r(2) by (rule ws_months_compose)
  ultimately show ?thesis by blast
qed

lemma entry_with_eligible:
  assumes res: "compute_monthly_best_friends_wall_stats c n yr idx = Inr res" and pool: "pool_of c n idx = Inr pm"
    and m: "1 \<le> m" "m \<le> 12" and ne: "eligible_of (pm m) \<noteq> []"
  shows "has_winner (entry_of res m)" and "map_of (entry_of res m) ''reason'' = None"
    and "\<exists>w. dict_get (entry_of res m) ''winner'' = Winner w"
    and "is_dict (dict_get (entry_of res m) ''raw'')"
proof -
  obtain raw where r: "entry_of res m = month_entry c n raw m"
    "map_of raw m = month_winner (fl_ops c) (pm m)"
    using compute_entry[OF res pool m] by blast
  obtain p where "month_winner (fl_ops c) (pm m) = Some p"
    using ne by (auto simp: month_winner_def)
  then obtain a sc where s: "map_of raw m = Some (a, sc)" using r(2) by (cases p) simp
  show "has_winner (entry_of res m)" using month_entry_some(5)[OF s] r(1) by simp
  show "map_of (entry_of res m) ''reason'' = None" using month_entry_some(2)[OF s] r(1) by simp
  show "\<exists>w. dict_get (entry_of res m) ''winner'' = Winner w"
    using month_entry_some(1)[OF s, of c n] r(1) by auto
  show "is_dict (dict_get (entry_of res m) ''raw'')"
    using month_entry_some(1)[OF s, of c n] r(1) by auto
qed

lemma entry_without_eligible:
  assumes res: "compute_monthly_best_friends_wall_stats c n yr idx = Inr res" and pool: "pool_of c n idx = Inr pm"
    and m: "1 \<le> m" "m \<le> 12" and e: "eligible_of (pm m) = []"
  shows "entry_of res m = no_winner_entry m"
proof -
  obtain raw where r: "entry_of res m = month_entry c n raw m"
    "map_of raw m = month_winner (fl_ops c) (pm m)"
    using compute_entry[OF res pool m] by blast
  have "map_of raw m = None" using r(2) e by (simp add: month_winner_def)
  then show ?thesis using r(1) by (simp add: month_entry_none)
qed

lemma months_of_result:
  assumes res: "compute_monthly_best_friends_wall_stats c n yr idx = Inr res"
  shows "length (ws_months res) = 12" and "map month_of_item (ws_months res) = [1..12]"
proof -
  obtain raw where r: "res = compose c n yr raw" using compute_Inr[OF res] by blast
  have w: "ws_months res = map (month_entry c n raw) [1..12]"
    unfolding r by (rule ws_months_compose)
  show "length (ws_months res) = 12" using w by simp
  have "map month_of_item (map (month_entry c n raw) [1..12]) = map (\<lambda>m. m) [1..12]"
    unfolding map_map by (rule map_cong) simp_all
  then show "map month_of_item (ws_months res) = [1..12]" using w by simp
qed

lemma pool_of_no_rows:
  "pool_of c n NoTable = Inr (\<lambda>m. [])" "pool_of c n (Table (Inr [])) = Inr (\<lambda>m. [])"
  by (simp_all add: pool_of_def Let_def run_pass_def run_loop_def flush_conv_def init_state_def)

lemma select_months_empty: "select_months fl (\<lambda>m. []) ms = Inr []"
  by (induction ms) (simp_all add: select_month_def)

lemma compute_empty_pool:
  assumes y: "year_range_epoch_seconds c yr = Inr b" and pm: "pool_of c n idx = Inr (\<lambda>m. [])"
  shows "\<exists>res0. compute_monthly_best_friends_wall_stats c n yr idx = Inr res0
     \<and> ws_months res0 = map no_winner_entry [1..12]"
proof -
  have "compute_monthly_best_friends_wall_stats c n yr idx = Inr (compose c n yr [])"
    by (simp add: compute_monthly_best_friends_wall_stats_def y pm select_months_empty)
  moreover have "ws_months (compose c n yr []) = map no_winner_entry [1..12]"
    unfolding ws_months_compose by (rule map_cong) (simp_all add: month_entry_def)
  ultimately show ?thesis by blast
qed

lemma example_year: "year_range_epoch_seconds collab_example 2025 = Inr (1767744000, 1799884800)"
  by (simp add: year_range_epoch_seconds_def collab_example_def)

lemma example_fl_sane: "fl_sane (fl_ops collab_example)"
  by (simp add: collab_example_def fl_sane_exact)

lemma rows_winner_pool: "pool_of collab_example ''wxid_me'' (Table (Inr rows_winner)) = Inr (per_month_aggs (run_pass collab_example ''wxid_me'' rows_winner))"
  by (simp add: pool_of_def Let_def strip_def is_space_def)

lemma rows_winner_returns: "\<exists>res. compute_monthly_best_friends_wall_stats collab_example ''wxid_me'' 2025 (Table (Inr rows_winner)) = Inr res"
  by (rule compute_returns[OF example_year rows_winner_pool example_fl_sane])

lemma rows_winner_eligible: "eligible_of ((per_month_aggs (run_pass collab_example ''wxid_me'' rows_winner)) 1) \<noteq> []"
  by code_simp

lemma rows_winner_february: "(per_month_aggs (run_pass collab_example ''wxid_me'' rows_winner)) 2 = []"
  by code_simp

lemma agg_seven_total: "total agg_seven = 7"
  by (simp add: agg_seven_def total_def)

text \<open>
  Claim C5. In a result of the function, the winner of a month, when there is one, is a
  record of that month's pool with total \<open>\<ge> 8\<close>, interaction \<open>\<ge> 3\<close>, reply count \<open>\<ge> 1\<close> and
  active days \<open>\<ge> 2\<close>, and the raw statistics of the entry are its own; so a record with
  total 7 is never selected by the selector, whatever the pool and the arithmetic; a
  month whose pool has no record that meets the four thresholds has the entry with
  winner \<open>None\<close> and reason \<open>insufficient_data\<close>.
\<close>

theorem winner_meets_thresholds:
  assumes res: "compute_monthly_best_friends_wall_stats c n yr idx = Inr res" and pool: "pool_of c n idx = Inr pm"
  shows "(\<forall>m. 1 \<le> m \<and> m \<le> 12 \<longrightarrow>
          (\<forall>w. dict_get (entry_of res m) ''winner'' = Winner w \<longrightarrow>
             (\<exists>a r. a \<in> set (pm m) \<and> username a = wi_username w
                \<and> 8 \<le> total a \<and> 3 \<le> interaction a \<and> 1 \<le> replies a \<and> 2 \<le> active_days_count a
                \<and> dict_get (entry_of res m) ''raw'' = Raw r
                \<and> totalMessages r = total a \<and> raw_interaction r = interaction a
                \<and> replyCount r = replies a \<and> activeDays r = active_days_count a))
          \<and> ((\<forall>a \<in> set (pm m).
                 \<not> (8 \<le> total a \<and> 3 \<le> interaction a \<and> 1 \<le> replies a \<and> 2 \<le> active_days_count a))
               \<longrightarrow> dict_get (entry_of res m) ''winner'' = PyNone
                 \<and> dict_get (entry_of res m) ''reason'' = PyStr ''insufficient_data''))
     \<and> (\<forall>fl aggs a sc. total a = 7 \<longrightarrow> select_month fl aggs \<noteq> Inr (Some (a, sc)))"
proof -
  have per_month: "(\<forall>m. 1 \<le> m \<and> m \<le> 12 \<longrightarrow>
          (\<forall>w. dict_get (entry_of res m) ''winner'' = Winner w \<longrightarrow>
             (\<exists>a r. a \<in> set (pm m) \<and> username a = wi_username w
                \<and> 8 \<le> total a \<and> 3 \<le> interaction a \<and> 1 \<le> replies a \<and> 2 \<le> active_days_count a
                \<and> dict_get (entry_of res m) ''raw'' = Raw r
                \<and> totalMessages r = total a \<and> raw_interaction r = interaction a
                \<and> replyCount r = replies a \<and> activeDays r = active_days_count a))
          \<and> ((\<forall>a \<in> set (pm m).
                 \<not> (8 \<le> total a \<and> 3 \<le> interaction a \<and> 1 \<le> replies a \<and> 2 \<le> active_days_count a))
               \<longrightarrow> dict_get (entry_of res m) ''winner'' = PyNone
                 \<and> dict_get (entry_of res m) ''reason'' = PyStr ''insufficient_data''))"
  proof (intro allI impI)
    fix m :: int assume m: "1 \<le> m \<and> m \<le> 12"
    obtain raw where e: "entry_of res m = month_entry c n raw m"
      and rm: "map_of raw m = month_winner (fl_ops c) (pm m)"
      using compute_entry[OF res pool conjunct1[OF m] conjunct2[OF m]] by blast
    show "(\<forall>w. dict_get (entry_of res m) ''winner'' = Winner w \<longrightarrow>
             (\<exists>a r. a \<in> set (pm m) \<and> username a = wi_username w
                \<and> 8 \<le> total a \<and> 3 \<le> interaction a \<and> 1 \<le> replies a \<and> 2 \<le> active_days_count a
                \<and> dict_get (entry_of res m) ''raw'' = Raw r
                \<and> totalMessages r = total a \<and> raw_interaction r = interaction a
                \<and> replyCount r = replies a \<and> activeDays r = active_days_count a))
          \<and> ((\<forall>a \<in> set (pm m).
                 \<not> (8 \<le> total a \<and> 3 \<le> interaction a \<and> 1 \<le> replies a \<and> 2 \<le> active_days_count a))
               \<longrightarrow> dict_get (entry_of res m) ''winner'' = PyNone
                 \<and> dict_get (entry_of res m) ''reason'' = PyStr ''insufficient_data'')"
    proof (cases "month_winner (fl_ops c) (pm m)")
      case None
      then have "entry_of res m = no_winner_entry m" using e rm by (simp add: month_entry_none)
      then show ?thesis by (simp add: no_winner_entry_fields)
    next
      case (Some p)
      obtain a sc where p: "p = (a, sc)" by (cases p)
      have el: "a \<in> set (pm m) \<and> is_eligible a"
        using Some p by (simp add: month_winner_eligible)
      have rm': "map_of raw m = Some (a, sc)" using rm Some p by simp
      obtain w r where wr: "dict_get (month_entry c n raw m) ''winner'' = Winner w"
        "wi_username w = username a"
        "dict_get (month_entry c n raw m) ''raw'' = Raw r"
        "totalMessages r = total a" "raw_interaction r = interaction a"
        "replyCount r = replies a" "activeDays r = active_days_count a"
        using month_entry_some(1)[OF rm', of c n] by blast
      show ?thesis
        unfolding e using wr el by (auto simp: is_eligible_iff)
    qed
  qed
  have seven: "(\<forall>fl aggs a sc. total a = 7 \<longrightarrow> select_month fl aggs \<noteq> Inr (Some (a, sc)))"
  proof (intro allI impI notI)
    fix fl aggs a sc assume t: "total a = 7" and s: "select_month fl aggs = Inr (Some (a, sc))"
    have "a \<in> set (eligible_of aggs)" by (rule select_month_eligible[OF s])
    then have "is_eligible a" by (simp add: eligible_of_def)
    then show False using t by (simp add: is_eligible_iff)
  qed
  show ?thesis
    using per_month seven by (intro conjI) assumption+
qed

theorem winner_meets_thresholds_witness:
  "\<exists>res w a. compute_monthly_best_friends_wall_stats collab_example ''wxid_me'' 2025 (Table (Inr rows_winner)) = Inr res
     \<and> pool_of collab_example ''wxid_me'' (Table (Inr rows_winner)) = Inr (per_month_aggs (run_pass collab_example ''wxid_me'' rows_winner))
     \<and> dict_get (entry_of res 1) ''winner'' = Winner w
     \<and> a \<in> set ((per_month_aggs (run_pass collab_example ''wxid_me'' rows_winner)) 1)
     \<and> username a = wi_username w \<and> 8 \<le> total a
     \<and> (per_month_aggs (run_pass collab_example ''wxid_me'' rows_winner)) 2 = []
     \<and> dict_get (entry_of res 2) ''winner'' = PyNone
     \<and> dict_get (entry_of res 2) ''reason'' = PyStr ''insufficient_data''
     \<and> total agg_seven = 7
     \<and> select_month exact_ops [agg_seven]
          \<noteq> Inr (Some (agg_seven, month_scores exact_ops [agg_seven] agg_seven))"
proof -
  obtain res where res: "compute_monthly_best_friends_wall_stats collab_example ''wxid_me'' 2025 (Table (Inr rows_winner)) = Inr res"
    using rows_winner_returns by blast
  note T = winner_meets_thresholds[OF res rows_winner_pool]
  have months: "(\<forall>m. 1 \<le> m \<and> m \<le> 12 \<longrightarrow>
          (\<forall>w. dict_get (entry_of res m) ''winner'' = Winner w \<longrightarrow>
             (\<exists>a r. a \<in> set ((per_month_aggs (run_pass collab_example ''wxid_me'' rows_winner)) m) \<and> username a = wi_username w
                \<and> 8 \<le> total a \<and> 3 \<le> interaction a \<and> 1 \<le> replies a \<and> 2 \<le> active_days_count a
                \<and> dict_get (entry_of res m) ''raw'' = Raw r
                \<and> totalMessages r = total a \<and> raw_interaction r = interaction a
                \<and> replyCount r = replies a \<and> activeDays r = active_days_count a))
          \<and> ((\<forall>a \<in> set ((per_month_aggs (run_pass collab_example ''wxid_me'' rows_winner)) m).
                 \<not> (8 \<le> total a \<and> 3 \<le> interaction a \<and> 1 \<le> replies a \<and> 2 \<le> active_days_count a))
               \<longrightarrow> dict_get (entry_of res m) ''winner'' = PyNone
                 \<and> dict_get (entry_of res m) ''reason'' = PyStr ''insufficient_data''))"
    using T by (elim conjE)
  have seven: "(\<forall>fl aggs a sc. total a = 7 \<longrightarrow> select_month fl aggs \<noteq> Inr (Some (a, sc)))"
    using T by (elim conjE)
  have one: "(1::int) \<le> 1 \<and> (1::int) \<le> 12" and two: "(1::int) \<le> 2 \<and> (2::int) \<le> 12" by simp_all
  obtain w where w: "dict_get (entry_of res 1) ''winner'' = Winner w"
    using entry_with_eligible(3)[OF res rows_winner_pool _ _ rows_winner_eligible] by auto
  from months[rule_format, OF one, THEN conjunct1, rule_format, OF w]
  obtain a where a: "a \<in> set ((per_month_aggs (run_pass collab_example ''wxid_me'' rows_winner)) 1)"
    "username a = wi_username w" "8 \<le> total a"
    by blast
  have feb: "dict_get (entry_of res 2) ''winner'' = PyNone
      \<and> dict_get (entry_of res 2) ''reason'' = PyStr ''insufficient_data''"
    using months[rule_format, OF two, THEN conjunct2] by (simp add: rows_winner_february)
  have s: "select_month exact_ops [agg_seven]
          \<noteq> Inr (Some (agg_seven, month_scores exact_ops [agg_seven] agg_seven))"
    using seven agg_seven_total by blast
  show ?thesis
    using res rows_winner_pool w a rows_winner_february conjunct1[OF feb] conjunct2[OF feb]
      agg_seven_total s
    by (intro exI[of _ res] exI[of _ w] exI[of _ a] conjI) assumption+
qed

text \<open>
  Claim C6, as stated, fails: the entry of a month with a winner has no key \<open>reason\<close>.
  Eight rows of one conversation in January give the first entry a winner and no such
  key.
\<close>

theorem reason_key_counterexample:
  "\<not> isl (compute_monthly_best_friends_wall_stats collab_example ''wxid_me'' 2025 (Table (Inr rows_winner)))
   \<and> has_winner (entry_of (projr (compute_monthly_best_friends_wall_stats collab_example ''wxid_me''
         2025 (Table (Inr rows_winner)))) 1)
   \<and> map_of (entry_of (projr (compute_monthly_best_friends_wall_stats collab_example ''wxid_me''
         2025 (Table (Inr rows_winner)))) 1) ''reason'' = None"
proof -
  obtain res where res: "compute_monthly_best_friends_wall_stats collab_example ''wxid_me'' 2025
      (Table (Inr rows_winner)) = Inr res"
    using rows_winner_returns by blast
  show ?thesis
    unfolding res using entry_with_eligible(1,2)[OF res rows_winner_pool _ _ rows_winner_eligible]
    by simp
qed

text \<open>
  Claim C6, amended. A result of the function has twelve entries, for the months 1 to 12
  in ascending order. The entry of a month without an eligible record has winner \<open>None\<close>,
  raw \<open>None\<close> and reason \<open>insufficient_data\<close>; when there is no index or no row, the
  function returns, for a year whose bounds it can compute, and every entry is of this
  kind. The entry of a month with an eligible record has a winner and raw statistics and
  no key \<open>reason\<close> at all. Where the key is present its value is \<open>insufficient_data\<close>.
\<close>

theorem months_entries:
  assumes res: "compute_monthly_best_friends_wall_stats c n yr idx = Inr res" and pool: "pool_of c n idx = Inr pm"
  shows "length (ws_months res) = 12 \<and> map month_of_item (ws_months res) = [1..12]
     \<and> (\<forall>m. 1 \<le> m \<and> m \<le> 12 \<longrightarrow>
          (eligible_of (pm m) = [] \<longrightarrow>
               entry_of res m = no_winner_entry m
             \<and> dict_get (entry_of res m) ''winner'' = PyNone
             \<and> dict_get (entry_of res m) ''raw'' = PyNone
             \<and> map_of (entry_of res m) ''reason'' = Some (PyStr ''insufficient_data''))
          \<and> (eligible_of (pm m) \<noteq> [] \<longrightarrow>
               has_winner (entry_of res m) \<and> is_dict (dict_get (entry_of res m) ''raw'')
             \<and> map_of (entry_of res m) ''reason'' = None)
          \<and> (\<forall>v. map_of (entry_of res m) ''reason'' = Some v \<longrightarrow> v = PyStr ''insufficient_data''))
     \<and> (\<forall>b idx. year_range_epoch_seconds c yr = Inr b \<and> idx \<in> {NoTable, Table (Inr [])} \<longrightarrow>
          (\<exists>res0. compute_monthly_best_friends_wall_stats c n yr idx = Inr res0
             \<and> ws_months res0 = map no_winner_entry [1..12]))"
proof -
  have per_month: "(\<forall>m. 1 \<le> m \<and> m \<le> 12 \<longrightarrow>
          (eligible_of (pm m) = [] \<longrightarrow>
               entry_of res m = no_winner_entry m
             \<and> dict_get (entry_of res m) ''winner'' = PyNone
             \<and> dict_get (entry_of res m) ''raw'' = PyNone
             \<and> map_of (entry_of res m) ''reason'' = Some (PyStr ''insufficient_data''))
          \<and> (eligible_of (pm m) \<noteq> [] \<longrightarrow>
               has_winner (entry_of res m) \<and> is_dict (dict_get (entry_of res m) ''raw'')
             \<and> map_of (entry_of res m) ''reason'' = None)
          \<and> (\<forall>v. map_of (entry_of res m) ''reason'' = Some v \<longrightarrow> v = PyStr ''insufficient_data''))"
  proof (intro allI impI)
    fix m :: int assume m: "1 \<le> m \<and> m \<le> 12"
    show "(eligible_of (pm m) = [] \<longrightarrow>
               entry_of res m = no_winner_entry m
             \<and> dict_get (entry_of res m) ''winner'' = PyNone
             \<and> dict_get (entry_of res m) ''raw'' = PyNone
             \<and> map_of (entry_of res m) ''reason'' = Some (PyStr ''insufficient_data''))
          \<and> (eligible_of (pm m) \<noteq> [] \<longrightarrow>
               has_winner (entry_of res m) \<and> is_dict (dict_get (entry_of res m) ''raw'')
             \<and> map_of (entry_of res m) ''reason'' = None)
          \<and> (\<forall>v. map_of (entry_of res m) ''reason'' = Some v \<longrightarrow> v = PyStr ''insufficient_data'')"
    proof (cases "eligible_of (pm m) = []")
      case True
      have "entry_of res m = no_winner_entry m"
        by (rule entry_without_eligible[OF res pool conjunct1[OF m] conjunct2[OF m] True])
      then show ?thesis using True by (simp add: no_winner_entry_fields)
    next
      case False
      note w = entry_with_eligible[OF res pool conjunct1[OF m] conjunct2[OF m] False]
      show ?thesis using False w(1,2,4) by simp
    qed
  qed
  have empty: "(\<forall>b idx. year_range_epoch_seconds c yr = Inr b \<and> idx \<in> {NoTable, Table (Inr [])} \<longrightarrow>
          (\<exists>res0. compute_monthly_best_friends_wall_stats c n yr idx = Inr res0
             \<and> ws_months res0 = map no_winner_entry [1..12]))"
  proof (intro allI impI)
    fix b idx0
    assume h: "year_range_epoch_seconds c yr = Inr b \<and> idx0 \<in> {NoTable, Table (Inr [])}"
    then have "pool_of c n idx0 = Inr (\<lambda>m. [])" using pool_of_no_rows[of c n] by auto
    then show "\<exists>res0. compute_monthly_best_friends_wall_stats c n yr idx0 = Inr res0
             \<and> ws_months res0 = map no_winner_entry [1..12]"
      by (rule compute_empty_pool[OF conjunct1[OF h]])
  qed
  show ?thesis
    using months_of_result[OF res] per_month empty
    by (intro conjI) assumption+
qed

theorem months_entries_witness:
  "\<exists>res. compute_monthly_best_friends_wall_stats collab_example ''wxid_me'' 2025 (Table (Inr rows_winner)) = Inr res
     \<and> pool_of collab_example ''wxid_me'' (Table (Inr rows_winner)) = Inr (per_month_aggs (run_pass collab_example ''wxid_me'' rows_winner))
     \<and> eligible_of ((per_month_aggs (run_pass collab_example ''wxid_me'' rows_winner)) 1) \<noteq> []
     \<and> has_winner (entry_of res 1) \<and> map_of (entry_of res 1) ''reason'' = None
     \<and> eligible_of ((per_month_aggs (run_pass collab_example ''wxid_me'' rows_winner)) 2) = []
     \<and> entry_of res 2 = no_winner_entry 2
     \<and> map_of (entry_of res 2) ''reason'' = Some (PyStr ''insufficient_data'')
     \<and> length (ws_months res) = 12
     \<and> year_range_epoch_seconds collab_example 2025 = Inr (1767744000, 1799884800)
     \<and> (\<exists>res0. compute_monthly_best_friends_wall_stats collab_example ''wxid_me'' 2025 NoTable = Inr res0
           \<and> ws_months res0 = map no_winner_entry [1..12])"
proof -
  obtain res where res: "compute_monthly_best_friends_wall_stats collab_example ''wxid_me'' 2025 (Table (Inr rows_winner)) = Inr res"
    using rows_winner_returns by blast
  note T = months_entries[OF res rows_winner_pool]
  have len: "length (ws_months res) = 12" using T by (elim conjE)
  have months: "(\<forall>m. 1 \<le> m \<and> m \<le> 12 \<longrightarrow>
          (eligible_of ((per_month_aggs (run_pass collab_example ''wxid_me'' rows_winner)) m) = [] \<longrightarrow>
               entry_of res m = no_winner_entry m
             \<and> dict_get (entry_of res m) ''winner'' = PyNone
             \<and> dict_get (entry_of res m) ''raw'' = PyNone
             \<and> map_of (entry_of res m) ''reason'' = Some (PyStr ''insufficient_data''))
          \<and> (eligible_of ((per_month_aggs (run_pass collab_example ''wxid_me'' rows_winner)) m) \<noteq> [] \<longrightarrow>
               has_winner (entry_of res m) \<and> is_dict (dict_get (entry_of res m) ''raw'')
             \<and> map_of (entry_of res m) ''reason'' = None)
          \<and> (\<forall>v. map_of (entry_of res m) ''reason'' = Some v \<longrightarrow> v = PyStr ''insufficient_data''))"
    using T by (elim conjE)
  have empty: "(\<forall>b idx. year_range_epoch_seconds collab_example 2025 = Inr b \<and> idx \<in> {NoTable, Table (Inr [])} \<longrightarrow>
          (\<exists>res0. compute_monthly_best_friends_wall_stats collab_example ''wxid_me'' 2025 idx = Inr res0
             \<and> ws_months res0 = map no_winner_entry [1..12]))"
    using T by (elim conjE)
  have one: "(1::int) \<le> 1 \<and> (1::int) \<le> 12" and two: "(1::int) \<le> 2 \<and> (2::int) \<le> 12" by simp_all
  have e2: "eligible_of ((per_month_aggs (run_pass collab_example ''wxid_me'' rows_winner)) 2) = []"
    by (simp add: rows_winner_february eligible_of_def)
  have jan: "has_winner (entry_of res 1) \<and> map_of (entry_of res 1) ''reason'' = None"
    using months[rule_format, OF one, THEN conjunct2, THEN conjunct1] rows_winner_eligible by simp
  have feb: "entry_of res 2 = no_winner_entry 2
      \<and> map_of (entry_of res 2) ''reason'' = Some (PyStr ''insufficient_data'')"
    using months[rule_format, OF two, THEN conjunct1] e2 by (simp add: no_winner_entry_fields)
  have none: "\<exists>res0. compute_monthly_best_friends_wall_stats collab_example ''wxid_me'' 2025 NoTable = Inr res0
           \<and> ws_months res0 = map no_winner_entry [1..12]"
    using empty[rule_format, of "(1767744000, 1799884800)" NoTable] example_year by simp
  show ?thesis
    using res rows_winner_pool rows_winner_eligible conjunct1[OF jan] conjunct2[OF jan] e2
      conjunct1[OF feb] conjunct2[OF feb] len example_year none
    by (intro exI[of _ res]) (intro conjI, assumption+)
qed

subsection \<open>The year summary\<close>

lemma winner_names_Cons:
  "winner_names (item # items) =
     (case dict_get item ''winner'' of Winner w \<Rightarrow> [wi_username w] | _ \<Rightarrow> []) @ winner_names items"
  by (simp add: winner_names_def)

lemma count_get_update:
  "count_get (AList.update u k counts) v = (if v = u then k else count_get counts v)"
  by (simp add: count_get_def update_conv')

lemma tally_props:
  assumes "\<forall>item \<in> set items. \<forall>w. dict_get item ''winner'' = Winner w \<longrightarrow>
             wi_username w \<noteq> [] \<and> strip (wi_username w) = wi_username w"
    and "distinct (map fst counts)"
  shows "distinct (map fst (tally counts items))
    \<and> (\<forall>u. count_get (tally counts items) u
             = count_get counts u + int (count_list (winner_names items) u))
    \<and> fst ` set (tally counts items) = fst ` set counts \<union> set (winner_names items)"
  using assms
proof (induction items arbitrary: counts)
  case Nil
  then show ?case by (simp add: winner_names_def)
next
  case (Cons item items)
  have good: "\<forall>item \<in> set items. \<forall>w. dict_get item ''winner'' = Winner w \<longrightarrow>
             wi_username w \<noteq> [] \<and> strip (wi_username w) = wi_username w"
    using Cons.prems(1) by simp
  show ?case
  proof (cases "\<exists>w. dict_get item ''winner'' = Winner w")
    case False
    then have t: "tally counts (item # items) = tally counts items"
      by (cases "dict_get item ''winner''") simp_all
    have n: "winner_names (item # items) = winner_names items"
      using False by (cases "dict_get item ''winner''") (simp_all add: winner_names_Cons)
    show ?thesis unfolding t n by (rule Cons.IH[OF good Cons.prems(2)])
  next
    case True
    then obtain w where w: "dict_get item ''winner'' = Winner w" by blast
    define u where "u = wi_username w"
    have u: "u \<noteq> []" "strip u = u" using Cons.prems(1) w by (simp_all add: u_def)
    define counts' where "counts' = AList.update u (count_get counts u + 1) counts"
    have t: "tally counts (item # items) = tally counts' items"
      using w u by (simp add: Let_def u_def counts'_def)
    have n: "winner_names (item # items) = u # winner_names items"
      using w by (simp add: winner_names_Cons u_def)
    have d: "distinct (map fst counts')"
      using Cons.prems(2) by (simp add: counts'_def distinct_update)
    note IH = Cons.IH[OF good d]
    have keys: "fst ` set counts' = {u} \<union> fst ` set counts"
      by (simp add: counts'_def dom_update)
    have cnt: "count_get counts' v + int (count_list (winner_names items) v)
        = count_get counts v + int (count_list (u # winner_names items) v)" for v
      by (simp add: counts'_def count_get_update)
    show ?thesis
      unfolding t n using IH keys cnt by auto
  qed
qed

lemma tally_from_empty:
  assumes "\<forall>item \<in> set items. \<forall>w. dict_get item ''winner'' = Winner w \<longrightarrow>
             wi_username w \<noteq> [] \<and> strip (wi_username w) = wi_username w"
  shows "distinct (map fst (tally [] items))"
    and "(u, k) \<in> set (tally [] items) \<longleftrightarrow>
           u \<in> set (winner_names items) \<and> k = int (count_list (winner_names items) u)"
    and "tally [] items = [] \<longleftrightarrow> winner_names items = []"
proof -
  note P = tally_props[OF assms, of "[]"]
  show d: "distinct (map fst (tally [] items))" using P by simp
  have cnt: "count_get (tally [] items) u = int (count_list (winner_names items) u)" for u
    using P by (simp add: count_get_def)
  have keys: "fst ` set (tally [] items) = set (winner_names items)" using P by simp
  show "(u, k) \<in> set (tally [] items) \<longleftrightarrow>
           u \<in> set (winner_names items) \<and> k = int (count_list (winner_names items) u)"
  proof
    assume in_t: "(u, k) \<in> set (tally [] items)"
    then have "map_of (tally [] items) u = Some k" using d by simp
    then have "count_get (tally [] items) u = k" by (simp add: count_get_def)
    moreover have "u \<in> fst ` set (tally [] items)" using in_t by force
    ultimately show "u \<in> set (winner_names items) \<and> k = int (count_list (winner_names items) u)"
      using cnt keys by simp
  next
    assume r: "u \<in> set (winner_names items) \<and> k = int (count_list (winner_names items) u)"
    then have "u \<in> fst ` set (tally [] items)" using keys by simp
    then obtain k' where k': "(u, k') \<in> set (tally [] items)" by auto
    then have "map_of (tally [] items) u = Some k'" using d by simp
    then have "count_get (tally [] items) u = k'" by (simp add: count_get_def)
    then show "(u, k) \<in> set (tally [] items)" using k' cnt r by simp
  qed
  show "tally [] items = [] \<longleftrightarrow> winner_names items = []"
    using keys by (metis image_is_empty set_empty)
qed

lemma champion_key_le:
  fixes cn n :: int and cu u :: string
  shows "(- cn, cu) \<le> (- n, u) \<longleftrightarrow> n < cn \<or> (n = cn \<and> cu \<le> u)"
  by (auto simp: less_eq_prod_def)

lemma top_champion_props:
  assumes d: "distinct (map fst T)"
  shows "top_champion_of c T = None \<longleftrightarrow> T = []"
    and "top_champion_of c T = Some ch \<Longrightarrow>
           (tc_username ch, tc_monthsWon ch) \<in> set T
           \<and> (\<forall>kv \<in> set T. snd kv \<le> tc_monthsWon ch
                 \<and> (snd kv = tc_monthsWon ch \<longrightarrow> tc_username ch \<le> fst kv))"
proof -
  show "top_champion_of c T = None \<longleftrightarrow> T = []"
    by (simp add: top_champion_of_def Let_def)
  assume ch: "top_champion_of c T = Some ch"
  then have ne: "T \<noteq> []" by (auto simp: top_champion_of_def)
  let ?key = "\<lambda>kv::string \<times> int. (- snd kv, fst kv)"
  let ?h = "hd (sort_key ?key T)"
  have h: "?h \<in> set T" by (rule hd_sort_key_least(1)[OF ne])
  have least: "\<forall>kv \<in> set T. ?key ?h \<le> ?key kv" by (rule hd_sort_key_least(2)[OF ne])
  have name: "tc_username ch = fst ?h"
    using ch ne by (auto simp: top_champion_of_def Let_def)
  have "map_of T (fst ?h) = Some (snd ?h)" using h d by simp
  then have "count_get T (fst ?h) = snd ?h" by (simp add: count_get_def)
  then have won: "tc_monthsWon ch = snd ?h"
    using ch ne by (auto simp: top_champion_of_def Let_def)
  have "\<forall>kv \<in> set T. snd kv \<le> tc_monthsWon ch
                 \<and> (snd kv = tc_monthsWon ch \<longrightarrow> tc_username ch \<le> fst kv)"
  proof
    fix kv assume "kv \<in> set T"
    then have "(- snd ?h, fst ?h) \<le> (- snd kv, fst kv)" using least by simp
    then show "snd kv \<le> tc_monthsWon ch
                 \<and> (snd kv = tc_monthsWon ch \<longrightarrow> tc_username ch \<le> fst kv)"
      unfolding champion_key_le name won by auto
  qed
  moreover have "(tc_username ch, tc_monthsWon ch) \<in> set T" using h name won by simp
  ultimately show "(tc_username ch, tc_monthsWon ch) \<in> set T
           \<and> (\<forall>kv \<in> set T. snd kv \<le> tc_monthsWon ch
                 \<and> (snd kv = tc_monthsWon ch \<longrightarrow> tc_username ch \<le> fst kv))"
    by simp
qed


lemma summary_compose:
  "topChampion (ws_summary (compose c n yr raw))
     = top_champion_of c (tally [] (ws_months (compose c n yr raw)))"
  "filledMonths (ws_summary (compose c n yr raw))
     = filled_months_of (ws_months (compose c n yr raw))"
  "monthsWithWinner (ws_summary (compose c n yr raw))
     = int (length (filled_months_of (ws_months (compose c n yr raw))))"
  by (simp_all add: compose_def Let_def)

lemma filled_months_of_alt:
  "filled_months_of items = map month_of_item (filter has_winner items)"
proof -
  have "has_winner = (\<lambda>x. is_dict (dict_get x ''winner''))"
    by (rule ext) (simp add: has_winner_def)
  then show ?thesis by (simp add: filled_months_of_def)
qed

lemma month_entry_winner_cases:
  "(map_of raw m = None \<and> month_entry c n raw m = no_winner_entry m)
   \<or> (\<exists>a sc w. map_of raw m = Some (a, sc) \<and> has_winner (month_entry c n raw m)
         \<and> dict_get (month_entry c n raw m) ''winner'' = Winner w \<and> wi_username w = username a)"
proof (cases "map_of raw m")
  case None
  then show ?thesis by (simp add: month_entry_none)
next
  case (Some p)
  obtain a sc where p: "p = (a, sc)" by (cases p)
  have s: "map_of raw m = Some (a, sc)" using Some p by simp
  show ?thesis
    using month_entry_some(1)[OF s, of c n] month_entry_some(5)[OF s, of c n] s by blast
qed

lemma months_good:
  assumes ok: "pool_ok pm"
    and raw: "\<forall>m. map_of raw m = (if 1 \<le> m \<and> m \<le> 12 then month_winner fl (pm m) else None)"
  shows "\<forall>item \<in> set (map (month_entry c n raw) ms).
           (\<forall>w. dict_get item ''winner'' = Winner w \<longrightarrow>
               wi_username w \<noteq> [] \<and> strip (wi_username w) = wi_username w)
         \<and> (has_winner item \<longleftrightarrow> (\<exists>w. dict_get item ''winner'' = Winner w))"
proof
  fix item assume "item \<in> set (map (month_entry c n raw) ms)"
  then obtain m where item: "item = month_entry c n raw m" by auto
  from month_entry_winner_cases[of raw m c n]
  show "(\<forall>w. dict_get item ''winner'' = Winner w \<longrightarrow>
               wi_username w \<noteq> [] \<and> strip (wi_username w) = wi_username w)
         \<and> (has_winner item \<longleftrightarrow> (\<exists>w. dict_get item ''winner'' = Winner w))"
  proof (elim disjE conjE exE)
    assume "month_entry c n raw m = no_winner_entry m"
    then show ?thesis unfolding item by (simp add: no_winner_entry_fields)
  next
    fix a sc w
    assume s: "map_of raw m = Some (a, sc)" and hw: "has_winner (month_entry c n raw m)"
      and w: "dict_get (month_entry c n raw m) ''winner'' = Winner w"
      and u: "wi_username w = username a"
    have "month_winner fl (pm m) = Some (a, sc)"
      using raw s by (auto split: if_splits)
    then have "a \<in> set (pm m)" by (simp add: month_winner_eligible)
    then have "username a \<noteq> [] \<and> strip (username a) = username a"
      using ok by (simp add: pool_ok_def)
    then show ?thesis unfolding item using hw w u by simp
  qed
qed

lemma winner_names_length:
  assumes "\<forall>item \<in> set items. has_winner item \<longleftrightarrow> (\<exists>w. dict_get item ''winner'' = Winner w)"
  shows "length (winner_names items) = length (filter has_winner items)"
  using assms
proof (induction items)
  case Nil
  show ?case by (simp add: winner_names_def)
next
  case (Cons item items)
  then have IH: "length (winner_names items) = length (filter has_winner items)" by simp
  show ?case
  proof (cases "has_winner item")
    case True
    then obtain w where "dict_get item ''winner'' = Winner w" using Cons.prems by auto
    then show ?thesis using True IH by (simp add: winner_names_Cons)
  next
    case False
    then have "\<not> (\<exists>w. dict_get item ''winner'' = Winner w)" using Cons.prems by simp
    then have "winner_names (item # items) = winner_names items"
      by (cases "dict_get item ''winner''") (simp_all add: winner_names_Cons)
    then show ?thesis using False IH by simp
  qed
qed

lemma count_list_pos: "u \<in> set xs \<Longrightarrow> 0 < count_list xs u"
  by (induction xs) auto


text \<open>
  Claim C8. In a result of the function, with the names of the monthly winners listed in
  month order: the top
  champion is \<open>None\<close> exactly when no month has a winner; otherwise it is a winner's
  name, its \<open>monthsWon\<close> is the number of months it won, no name won more months, and a
  name that won as many months is not smaller. \<open>monthsWithWinner\<close> is the number of
  entries with a winner and \<open>filledMonths\<close> lists the months of these entries.
\<close>

theorem year_summary_champion:
  assumes res: "compute_monthly_best_friends_wall_stats c n yr idx = Inr res"
  shows "(topChampion (ws_summary res) = None \<longleftrightarrow> winner_names (ws_months res) = [])
     \<and> (winner_names (ws_months res) = [] \<longleftrightarrow>
          (\<forall>m. 1 \<le> m \<and> m \<le> 12 \<longrightarrow> \<not> has_winner (entry_of res m)))
     \<and> (\<forall>ch. topChampion (ws_summary res) = Some ch \<longrightarrow>
           tc_username ch \<in> set (winner_names (ws_months res))
         \<and> tc_monthsWon ch = int (count_list (winner_names (ws_months res)) (tc_username ch))
         \<and> (\<forall>u \<in> set (winner_names (ws_months res)).
               count_list (winner_names (ws_months res)) u
                 \<le> count_list (winner_names (ws_months res)) (tc_username ch)
             \<and> (count_list (winner_names (ws_months res)) u
                  = count_list (winner_names (ws_months res)) (tc_username ch)
                 \<longrightarrow> tc_username ch \<le> u)))
     \<and> monthsWithWinner (ws_summary res) = int (length (filter has_winner (ws_months res)))
     \<and> length (winner_names (ws_months res)) = length (filter has_winner (ws_months res))
     \<and> filledMonths (ws_summary res) = filter (\<lambda>m. has_winner (entry_of res m)) [1..12]"
proof -
  obtain pm raw where pm: "pool_of c n idx = Inr pm" and r: "res = compose c n yr raw"
    and raw: "\<forall>m. map_of raw m = (if 1 \<le> m \<and> m \<le> 12 then month_winner (fl_ops c) (pm m) else None)"
    using compute_Inr[OF res] by blast
  let ?res = "compose c n yr raw"
  let ?months = "ws_months ?res"
  let ?W = "winner_names ?months"
  have months: "?months = map (month_entry c n raw) [1..12]" by (rule ws_months_compose)
  have good: "\<forall>item \<in> set ?months.
           (\<forall>w. dict_get item ''winner'' = Winner w \<longrightarrow>
               wi_username w \<noteq> [] \<and> strip (wi_username w) = wi_username w)
         \<and> (has_winner item \<longleftrightarrow> (\<exists>w. dict_get item ''winner'' = Winner w))"
    unfolding months by (rule months_good[OF pool_ok_pool_of[OF pm] raw])
  have good1: "\<forall>item \<in> set ?months. \<forall>w. dict_get item ''winner'' = Winner w \<longrightarrow>
               wi_username w \<noteq> [] \<and> strip (wi_username w) = wi_username w"
    using good by blast
  have good2: "\<forall>item \<in> set ?months. has_winner item \<longleftrightarrow> (\<exists>w. dict_get item ''winner'' = Winner w)"
    using good by blast
  note T = tally_from_empty[OF good1]
  have champ: "topChampion (ws_summary ?res) = top_champion_of c (tally [] ?months)"
    by (rule summary_compose(1))
  have none: "topChampion (ws_summary ?res) = None \<longleftrightarrow> ?W = []"
    unfolding champ top_champion_props(1)[OF T(1)] by (rule T(3))
  have len: "length ?W = length (filter has_winner ?months)"
    by (rule winner_names_length[OF good2])
  have entries: "entry_of ?res m = month_entry c n raw m" if "m \<in> set [1..12]" for m
    using that by (simp add: entry_of_compose)
  have "?W = [] \<longleftrightarrow> filter has_winner ?months = []" using len by (metis length_0_conv)
  also have "\<dots> \<longleftrightarrow> (\<forall>m \<in> set [1..12]. \<not> has_winner (month_entry c n raw m))"
    unfolding months by (simp add: filter_empty_conv del: upto.simps)
  also have "\<dots> \<longleftrightarrow> (\<forall>m \<in> set [1..12]. \<not> has_winner (entry_of ?res m))"
    using entries by simp
  also have "\<dots> \<longleftrightarrow> (\<forall>m. 1 \<le> m \<and> m \<le> 12 \<longrightarrow> \<not> has_winner (entry_of ?res m))"
    by (simp add: Ball_def del: upto.simps)
  finally have empty: "?W = [] \<longleftrightarrow> (\<forall>m. 1 \<le> m \<and> m \<le> 12 \<longrightarrow> \<not> has_winner (entry_of ?res m))" .
  have some: "\<forall>ch. topChampion (ws_summary ?res) = Some ch \<longrightarrow>
           tc_username ch \<in> set ?W
         \<and> tc_monthsWon ch = int (count_list ?W (tc_username ch))
         \<and> (\<forall>u \<in> set ?W. count_list ?W u \<le> count_list ?W (tc_username ch)
             \<and> (count_list ?W u = count_list ?W (tc_username ch) \<longrightarrow> tc_username ch \<le> u))"
  proof (intro allI impI)
    fix ch assume "topChampion (ws_summary ?res) = Some ch"
    then have ch: "top_champion_of c (tally [] ?months) = Some ch" by (simp add: champ)
    note P = top_champion_props(2)[OF T(1) ch]
    have mem: "tc_username ch \<in> set ?W"
      and won: "tc_monthsWon ch = int (count_list ?W (tc_username ch))"
      using P T(2)[of "tc_username ch" "tc_monthsWon ch"] by simp_all
    have others: "\<forall>u \<in> set ?W. count_list ?W u \<le> count_list ?W (tc_username ch)
             \<and> (count_list ?W u = count_list ?W (tc_username ch) \<longrightarrow> tc_username ch \<le> u)"
    proof
      fix u assume "u \<in> set ?W"
      then have "(u, int (count_list ?W u)) \<in> set (tally [] ?months)" by (simp add: T(2))
      with P have "snd (u, int (count_list ?W u)) \<le> tc_monthsWon ch
                 \<and> (snd (u, int (count_list ?W u)) = tc_monthsWon ch
                      \<longrightarrow> tc_username ch \<le> fst (u, int (count_list ?W u)))"
        by blast
      then show "count_list ?W u \<le> count_list ?W (tc_username ch)
             \<and> (count_list ?W u = count_list ?W (tc_username ch) \<longrightarrow> tc_username ch \<le> u)"
        unfolding won by simp
    qed
    show "tc_username ch \<in> set ?W
         \<and> tc_monthsWon ch = int (count_list ?W (tc_username ch))
         \<and> (\<forall>u \<in> set ?W. count_list ?W u \<le> count_list ?W (tc_username ch)
             \<and> (count_list ?W u = count_list ?W (tc_username ch) \<longrightarrow> tc_username ch \<le> u))"
      using mem won others by (intro conjI) assumption+
  qed
  have with_winner: "monthsWithWinner (ws_summary ?res) = int (length (filter has_winner ?months))"
    unfolding summary_compose(3) filled_months_of_alt by simp
  have "filledMonths (ws_summary ?res) = map month_of_item (filter has_winner ?months)"
    unfolding summary_compose(2) filled_months_of_alt ..
  also have "\<dots> = map month_of_item (map (month_entry c n raw)
       (filter (\<lambda>m. has_winner (month_entry c n raw m)) [1..12]))"
    unfolding months filter_map comp_def ..
  also have "\<dots> = filter (\<lambda>m. has_winner (month_entry c n raw m)) [1..12]"
    by (simp add: comp_def del: upto.simps)
  also have "\<dots> = filter (\<lambda>m. has_winner (entry_of ?res m)) [1..12]"
    by (rule filter_cong) (simp_all add: entries del: upto.simps)
  finally have filled: "filledMonths (ws_summary ?res)
      = filter (\<lambda>m. has_winner (entry_of ?res m)) [1..12]" .
  show ?thesis
    unfolding r using none empty some with_winner len filled
    by (intro conjI) assumption+
qed

lemma two_winners_eligible:
  "map (\<lambda>m. map username (eligible_of
      (per_month_aggs (run_pass collab_example ''wxid_me'' rows_two_winners) m))) [1..12]
   = [[''wxid_a''], [''wxid_b''], [], [], [], [], [], [], [], [], [], []]"
  by code_simp

lemma names_order: "\<not> ''wxid_b'' \<le> ''wxid_a''" "raw_ordered rows_two_winners"
  by code_simp+

lemma months_list: "[1..12::int] = [1, 2, 3, 4, 5, 6, 7, 8, 9, 10, 11, 12]"
  by code_simp

lemma winner_name_of_entry:
  "(case dict_get (month_entry c n raw m) ''winner'' of Winner w \<Rightarrow> [wi_username w] | _ \<Rightarrow> [])
     = (case map_of raw m of None \<Rightarrow> [] | Some p \<Rightarrow> [username (fst p)])"
  by (simp add: month_entry_def no_winner_entry_def dict_get_def Let_def split: option.splits prod.splits)

lemma winner_names_result:
  assumes res: "compute_monthly_best_friends_wall_stats c n yr idx = Inr res"
    and pool: "pool_of c n idx = Inr pm"
  shows "winner_names (ws_months res) =
     concat (map (\<lambda>m. case month_winner (fl_ops c) (pm m) of None \<Rightarrow> []
                       | Some p \<Rightarrow> [username (fst p)]) [1..12])"
proof -
  obtain pm' raw where r: "pool_of c n idx = Inr pm'" "res = compose c n yr raw"
    "\<forall>m. map_of raw m = (if 1 \<le> m \<and> m \<le> 12 then month_winner (fl_ops c) (pm' m) else None)"
    using compute_Inr[OF res] by blast
  have eq: "pm' = pm" using r(1) pool by simp
  have "winner_names (ws_months res) =
      concat (map (\<lambda>m. case map_of raw m of None \<Rightarrow> [] | Some p \<Rightarrow> [username (fst p)]) [1..12])"
    unfolding r(2) ws_months_compose winner_names_def map_map comp_def winner_name_of_entry ..
  also have "map (\<lambda>m. case map_of raw m of None \<Rightarrow> [] | Some p \<Rightarrow> [username (fst p)]) [1..12]
      = map (\<lambda>m. case month_winner (fl_ops c) (pm m) of None \<Rightarrow> []
                       | Some p \<Rightarrow> [username (fst p)]) [1..12]"
    by (rule map_cong) (simp_all add: r(3) eq del: upto.simps)
  finally show ?thesis .
qed

lemma month_winner_names:
  "eligible_of aggs = [] \<Longrightarrow>
     (case month_winner fl aggs of None \<Rightarrow> [] | Some p \<Rightarrow> [username (fst p)]) = []"
  "map username (eligible_of aggs) = [u] \<Longrightarrow>
     (case month_winner fl aggs of None \<Rightarrow> [] | Some p \<Rightarrow> [username (fst p)]) = [u]"
proof -
  show "(case month_winner fl aggs of None \<Rightarrow> [] | Some p \<Rightarrow> [username (fst p)]) = []"
    if "eligible_of aggs = []"
    using that by (simp add: month_winner_def)
  show "(case month_winner fl aggs of None \<Rightarrow> [] | Some p \<Rightarrow> [username (fst p)]) = [u]"
    if u: "map username (eligible_of aggs) = [u]"
  proof -
    have ne: "eligible_of aggs \<noteq> []" using u by auto
    obtain w where w: "month_winner fl aggs = Some (w, month_scores fl aggs w)"
      "w \<in> set (eligible_of aggs)"
      using month_winner_props[OF ne, of fl] by blast
    have "username w \<in> set (map username (eligible_of aggs))" using w(2) by simp
    then have "username w = u" unfolding u by simp
    then show ?thesis by (simp add: w(1))
  qed
qed

lemma two_winners_pool:
  "pool_of collab_example ''wxid_me'' (Table (Inr rows_two_winners))
     = Inr (per_month_aggs (run_pass collab_example ''wxid_me'' rows_two_winners))"
  by (simp add: pool_of_def Let_def strip_def is_space_def)

lemma two_winners_months:
  "map (\<lambda>m. case month_winner fl
                (per_month_aggs (run_pass collab_example ''wxid_me'' rows_two_winners) m) of
              None \<Rightarrow> [] | Some p \<Rightarrow> [username (fst p)]) [1..12]
   = [[''wxid_a''], [''wxid_b''], [], [], [], [], [], [], [], [], [], []]"
proof -
  let ?P = "per_month_aggs (run_pass collab_example ''wxid_me'' rows_two_winners)"
  have "map (\<lambda>m. case month_winner fl (?P m) of None \<Rightarrow> [] | Some p \<Rightarrow> [username (fst p)]) [1..12]
      = map (\<lambda>m. map username (eligible_of (?P m))) [1..12]"
  proof (rule map_cong[OF refl])
    fix m :: int assume m: "m \<in> set [1..12]"
    let ?g = "\<lambda>m. map username (eligible_of (?P m))"
    from m have "?g m \<in> ?g ` set [1..12]" by (rule imageI)
    then have "map username (eligible_of (?P m)) \<in> set (map ?g [1..12])"
      by (simp only: set_map)
    then have "map username (eligible_of (?P m)) = [''wxid_a'']
        \<or> map username (eligible_of (?P m)) = [''wxid_b'']
        \<or> map username (eligible_of (?P m)) = []"
      unfolding two_winners_eligible by auto
    then show "(case month_winner fl (?P m) of None \<Rightarrow> [] | Some p \<Rightarrow> [username (fst p)])
        = map username (eligible_of (?P m))"
      using month_winner_names[where aggs = "?P m" and fl = fl] by auto
  qed
  then show ?thesis unfolding two_winners_eligible .
qed

theorem year_summary_champion_witness:
  "\<exists>res ch. compute_monthly_best_friends_wall_stats collab_example ''wxid_me'' 2025
        (Table (Inr rows_two_winners)) = Inr res
     \<and> winner_names (ws_months res) = [''wxid_a'', ''wxid_b'']
     \<and> topChampion (ws_summary res) = Some ch
     \<and> tc_username ch = ''wxid_a'' \<and> tc_monthsWon ch = 1
     \<and> monthsWithWinner (ws_summary res) = 2
     \<and> has_winner (entry_of res 1)
     \<and> 1 \<in> set (filledMonths (ws_summary res))"
proof -
  obtain res where res: "compute_monthly_best_friends_wall_stats collab_example ''wxid_me'' 2025
        (Table (Inr rows_two_winners)) = Inr res"
    using compute_returns[OF example_year two_winners_pool example_fl_sane] by blast
  note T = year_summary_champion[OF res]
  have none: "topChampion (ws_summary res) = None \<longleftrightarrow> winner_names (ws_months res) = []"
    using T by (elim conjE)
  have some: "\<forall>ch. topChampion (ws_summary res) = Some ch \<longrightarrow>
           tc_username ch \<in> set (winner_names (ws_months res))
         \<and> tc_monthsWon ch = int (count_list (winner_names (ws_months res)) (tc_username ch))
         \<and> (\<forall>u \<in> set (winner_names (ws_months res)).
               count_list (winner_names (ws_months res)) u
                 \<le> count_list (winner_names (ws_months res)) (tc_username ch)
             \<and> (count_list (winner_names (ws_months res)) u
                  = count_list (winner_names (ws_months res)) (tc_username ch)
                 \<longrightarrow> tc_username ch \<le> u))"
    using T by (elim conjE)
  have with_winner: "monthsWithWinner (ws_summary res) = int (length (filter has_winner (ws_months res)))"
    using T by (elim conjE)
  have len: "length (winner_names (ws_months res)) = length (filter has_winner (ws_months res))"
    using T by (elim conjE)
  have filled: "filledMonths (ws_summary res) = filter (\<lambda>m. has_winner (entry_of res m)) [1..12]"
    using T by (elim conjE)
  have W: "winner_names (ws_months res) = [''wxid_a'', ''wxid_b'']"
    unfolding winner_names_result[OF res two_winners_pool] two_winners_months by simp
  have "topChampion (ws_summary res) \<noteq> None" using none W by simp
  then obtain ch where ch: "topChampion (ws_summary res) = Some ch" by auto
  note S = some[rule_format, OF ch, unfolded W]
  have mem: "tc_username ch = ''wxid_a'' \<or> tc_username ch = ''wxid_b''"
    using S by auto
  have "tc_username ch \<noteq> ''wxid_b''"
  proof
    assume b: "tc_username ch = ''wxid_b''"
    have "tc_username ch \<le> ''wxid_a''"
      using S[THEN conjunct2, THEN conjunct2, rule_format, of "''wxid_a''"] b by simp
    then show False using names_order(1) b by simp
  qed
  then have name: "tc_username ch = ''wxid_a''" using mem by simp
  have won: "tc_monthsWon ch = 1" using S name by simp
  have cnt: "monthsWithWinner (ws_summary res) = 2" using with_winner len W by simp
  have e: "eligible_of (per_month_aggs (run_pass collab_example ''wxid_me'' rows_two_winners) 1) \<noteq> []"
    using two_winners_eligible unfolding months_list by auto
  have jan: "has_winner (entry_of res 1)"
    using entry_with_eligible(1)[OF res two_winners_pool _ _ e] by simp
  have f: "1 \<in> set (filledMonths (ws_summary res))"
    unfolding filled using jan by simp
  show ?thesis
    using res W ch name won cnt jan f by (intro exI[of _ res] exI[of _ ch] conjI) assumption+
qed

end
